theory Spec2Isabelle
  imports Complex_Main "HOL-Library.Log_Nat"
begin

section \<open>Python values and exceptions\<close>

text \<open>
  Python integers are unbounded, so they are HOL integers. A Python string is a sequence
  of Unicode code points (\<open>ord\<close> and \<open>chr\<close> convert between a character and its code
  point), so a message string is a list of code points. Decimal numerals, as produced by
  \<open>str\<close> on an integer, are lists of ASCII characters.

  Every exception of the source is a value of \<open>error\<close>; a function that can raise
  returns \<open>error + 'a\<close>, with \<open>Inl\<close> for the exception. A \<open>ValueError\<close> carries which
  \<open>raise\<close> statement (or which library function) produced it.
\<close>

datatype value_error =
    EntradaIncorrecta
  | DigitosPadding
  | NumeroPrimos
  | MinMayorMax
  | NoExistenPrimos
  | MathDomain
  | EmptyRange
  | ChrRange
  | Unpack
  | MaxStrDigits

datatype error =
    ValueError value_error
  | AssertionError
  | OverflowError
  | ArithmeticError
  | DomainError
  | UserNotFound

type_synonym pystr = "nat list"

text \<open>
  Two things the program leaves to the interpreter it runs on are inputs of the model.

  \<^item> \<open>trunc_log10 py m\<close> is the value of \<open>int(math.log10(m))\<close> for an integer
    \<open>m \<ge> 10^13\<close>. \<open>math.log10\<close> converts \<open>m\<close> to a double and calls the C library, and from
    fifteen digits on its rounding decides the integer part: CPython gives
    \<open>math.log10(999999999999999) = 15.0\<close> and \<open>math.log10(10 ** 512) = 511.99999999999994\<close>.

  \<^item> \<open>max_str_digits py\<close> is \<open>sys.get_int_max_str_digits()\<close>, the limit on the length of
    a decimal numeral that \<open>str\<close> and \<open>int\<close> convert: \<open>4300\<close> by default since
    CPython 3.11 (and in the security releases of 3.7 to 3.10), \<open>0\<close> when the limit is
    switched off or the interpreter has none.
\<close>

record plataforma =
  trunc_log10 :: "int \<Rightarrow> int"
  max_str_digits :: nat

definition is_ValueError :: "error + 'a \<Rightarrow> bool" where
  "is_ValueError r = (case r of Inl (ValueError t) \<Rightarrow> True | _ \<Rightarrow> False)"

subsection \<open>Decimal numerals: \<open>str\<close> and \<open>int\<close>\<close>

definition digit_char :: "nat \<Rightarrow> char" where
  "digit_char d = char_of (48 + d)"

definition char_digit :: "char \<Rightarrow> int" where
  "char_digit c = int (of_char c) - 48"

fun str_nat :: "nat \<Rightarrow> string" where
  "str_nat n = (if n < 10 then [digit_char n] else str_nat (n div 10) @ [digit_char (n mod 10)])"

declare str_nat.simps [simp del]

definition str_int :: "int \<Rightarrow> string" where
  "str_int m = (if m < 0 then CHR ''-'' # str_nat (nat (- m)) else str_nat (nat m))"

text \<open>
  \<open>int(s)\<close> on a string of decimal digits, with an optional leading minus sign. (On any
  other string Python raises; \<open>aplicar_padding\<close> only ever passes a non-empty string of
  digits.)
\<close>

definition int_digits :: "string \<Rightarrow> int" where
  "int_digits s = foldl (\<lambda>acc c. 10 * acc + char_digit c) 0 s"

definition int_str :: "string \<Rightarrow> int" where
  "int_str s = (case s of [] \<Rightarrow> 0
                | c # cs \<Rightarrow> if c = CHR ''-'' then - int_digits cs else int_digits s)"

text \<open>
  The conversion limit. Both conversions raise \<open>ValueError\<close> when the numeral, without
  its sign, has more than \<open>640\<close> digits and more digits than a positive
  \<open>max_str_digits\<close>; \<open>str_py\<close> and \<open>int_py\<close> are \<open>str\<close> and \<open>int\<close> with that check.
\<close>

definition excede :: "plataforma \<Rightarrow> nat \<Rightarrow> bool" where
  "excede py len = (0 < max_str_digits py \<and> 640 < len \<and> max_str_digits py < len)"

definition sin_signo :: "string \<Rightarrow> string" where
  "sin_signo s = (case s of [] \<Rightarrow> [] | c # cs \<Rightarrow> if c = CHR ''-'' then cs else s)"

definition str_py :: "plataforma \<Rightarrow> int \<Rightarrow> error + string" where
  "str_py py m = (if excede py (length (sin_signo (str_int m))) then Inl (ValueError MaxStrDigits)
                  else Inr (str_int m))"

definition int_py :: "plataforma \<Rightarrow> string \<Rightarrow> error + int" where
  "int_py py s = (if excede py (length (sin_signo s)) then Inl (ValueError MaxStrDigits)
                  else Inr (int_str s))"

subsection \<open>The \<open>random\<close> module\<close>

text \<open>
  The generator's output is an input of the model: \<open>r\<close> is the raw natural number the
  generator would produce for one call, and the library reduces it to the requested
  range exactly as CPython does (\<open>start + step * randbelow(width)\<close>).
  \<open>randint a b\<close> is only called with \<open>a \<le> b\<close> in this program.
\<close>

definition randint :: "int \<Rightarrow> int \<Rightarrow> nat \<Rightarrow> int" where
  "randint a b r = a + int r mod (b - a + 1)"

definition randrange :: "int \<Rightarrow> int \<Rightarrow> int \<Rightarrow> nat \<Rightarrow> error + int" where
  "randrange start stop step r =
     (let width = (stop - start + step - 1) div step
      in if width \<le> 0 then Inl (ValueError EmptyRange)
         else Inr (start + step * (int r mod width)))"

subsection \<open>\<open>math.log10\<close>\<close>

text \<open>
  The source counts decimal digits as \<open>int(log10(m)) + 1\<close>; \<open>int_log10\<close> is
  \<open>int(log10(m))\<close>. \<open>log10\<close> raises \<open>ValueError\<close> (math domain error) on an integer that
  is not positive. Below \<open>10^13\<close> the integer part of the double is the exact
  \<open>\<lfloor>log10 m\<rfloor>\<close>: the conversion of \<open>m\<close> to a double is exact, the library's \<open>log10\<close> is exact at
  the powers of ten, and \<open>log10 (10^k - 1)\<close> lies at least \<open>4 * 10^-14\<close> below \<open>k\<close> for
  \<open>k \<le> 13\<close>, more than twenty units in the last place of a double of that size. From
  \<open>10^13\<close> on the value is the platform's. \<open>floorlog 10 m\<close> is \<open>nat \<lfloor>log 10 m\<rfloor> + 1\<close> for
  positive \<open>m\<close>.
\<close>

definition int_log10 :: "plataforma \<Rightarrow> int \<Rightarrow> error + int" where
  "int_log10 py m = (if m \<le> 0 then Inl (ValueError MathDomain)
                     else if m < 10 ^ 13 then Inr (int (floorlog 10 (nat m)) - 1)
                     else Inr (trunc_log10 py m))"

section \<open>rsa.py: the padding codec\<close>

text \<open>
  \<open>aplicar_padding\<close>: the \<open>digitos_padding\<close> calls of \<open>random.randint(0, 9)\<close> take their
  raw values from \<open>rnd 0\<close>, \<open>rnd 1\<close>, ... The numeral of \<open>m\<close> is built first, then the
  digits are joined to it, and \<open>int\<close> converts the whole string. (The numeral of one
  random digit has one character, so its \<open>str\<close> never meets the limit.)
\<close>

definition aplicar_padding :: "plataforma \<Rightarrow> int \<Rightarrow> int \<Rightarrow> (nat \<Rightarrow> nat) \<Rightarrow> error + int" where
  "aplicar_padding py m digitos_padding rnd =
     (if digitos_padding < 0 \<or> m < 0 then Inl (ValueError EntradaIncorrecta)
      else case str_py py m of
             Inl err \<Rightarrow> Inl err
           | Inr s \<Rightarrow>
               int_py py (s @
                  concat (map (\<lambda>i. str_int (randint 0 9 (rnd i))) [0..<nat digitos_padding])))"

text \<open>
  \<open>eliminar_padding\<close>: the chained comparison \<open>0 <= d < int(log10(m)) + 1\<close> evaluates
  \<open>log10(m)\<close> only when \<open>0 <= d\<close> holds.
\<close>

definition eliminar_padding :: "plataforma \<Rightarrow> int \<Rightarrow> int \<Rightarrow> error + int" where
  "eliminar_padding py m digitos_padding =
     (if \<not> 0 \<le> digitos_padding then Inl (ValueError DigitosPadding)
      else case int_log10 py m of
             Inl err \<Rightarrow> Inl err
           | Inr l \<Rightarrow> if \<not> digitos_padding < l + 1 then Inl (ValueError DigitosPadding)
                      else Inr (m div 10 ^ nat digitos_padding))"

section \<open>The modular arithmetic library\<close>

text \<open>
  Modelled from the spec: \<open>modular.potencia_mod_p\<close> (the module \<open>modular\<close> is imported
  by rsa.py and is not among the sources). The spec's \<open>mod_pow(base, exponent, modulus)\<close>
  "computes \<open>base^exponent mod modulus\<close> via binary exponentiation; ... fails with an
  arithmetic error if \<open>modulus <= 0\<close>". An exponent that is not positive gives the empty
  product.
\<close>

fun potencia_bin :: "int \<Rightarrow> nat \<Rightarrow> int \<Rightarrow> int" where
  "potencia_bin b e n =
     (if e = 0 then 1 mod n
      else let h = potencia_bin (b * b mod n) (e div 2) n
           in if even e then h else b * h mod n)"

declare potencia_bin.simps [simp del]

definition potencia_mod_p :: "int \<Rightarrow> int \<Rightarrow> int \<Rightarrow> error + int" where
  "potencia_mod_p b e n =
     (if n \<le> 0 then Inl ArithmeticError else Inr (potencia_bin b (nat e) n))"

section \<open>rsa.py: the message codec\<close>

text \<open>
  \<open>cifrar_rsa\<close>: the \<open>assert\<close> evaluates \<open>log10(m)\<close>, then \<open>log10(n)\<close>, then compares.
\<close>

definition cifrar_rsa ::
  "plataforma \<Rightarrow> int \<Rightarrow> int \<Rightarrow> int \<Rightarrow> int \<Rightarrow> (nat \<Rightarrow> nat) \<Rightarrow> error + int" where
  "cifrar_rsa py m n e digitos_padding rnd =
     (if m < 0 \<or> n < 0 \<or> e < 0 \<or> digitos_padding < 0 then Inl (ValueError EntradaIncorrecta)
      else case int_log10 py m of
        Inl err \<Rightarrow> Inl err
      | Inr ldm \<Rightarrow>
         (case int_log10 py n of
            Inl err \<Rightarrow> Inl err
          | Inr ldn \<Rightarrow>
             if \<not> ldm + 1 + digitos_padding < ldn + 1 then Inl AssertionError
             else case aplicar_padding py m digitos_padding rnd of
                    Inl err \<Rightarrow> Inl err
                  | Inr m' \<Rightarrow> potencia_mod_p m' e n))"

definition descifrar_rsa :: "plataforma \<Rightarrow> int \<Rightarrow> int \<Rightarrow> int \<Rightarrow> int \<Rightarrow> error + int" where
  "descifrar_rsa py c n d digitos_padding =
     (case potencia_mod_p c d n of
        Inl err \<Rightarrow> Inl err
      | Inr c' \<Rightarrow> eliminar_padding py c' digitos_padding)"

text \<open>
  \<open>ord\<close> and \<open>chr\<close>. \<open>chr\<close> raises \<open>OverflowError\<close> when its argument does not fit a C
  \<open>int\<close>, and \<open>ValueError\<close> when it fits but is no code point.
\<close>

definition ord :: "nat \<Rightarrow> int" where
  "ord ch = int ch"

definition chr :: "int \<Rightarrow> error + nat" where
  "chr i = (if i < - (2 ^ 31) \<or> 2 ^ 31 \<le> i then Inl OverflowError
            else if i < 0 \<or> 1114111 < i then Inl (ValueError ChrRange)
            else Inr (nat i))"

text \<open>
  \<open>cifrar_cadena_rsa\<close>: the list comprehension encrypts the characters from left to
  right, and the first exception ends it. Each call of \<open>cifrar_rsa\<close> that returns has
  consumed \<open>digitos_padding\<close> random digits.
\<close>

fun cifrar_cadena_rsa ::
  "plataforma \<Rightarrow> pystr \<Rightarrow> int \<Rightarrow> int \<Rightarrow> int \<Rightarrow> (nat \<Rightarrow> nat) \<Rightarrow> error + int list" where
  "cifrar_cadena_rsa py [] n e digitos_padding rnd = Inr []"
| "cifrar_cadena_rsa py (ch # s) n e digitos_padding rnd =
     (case cifrar_rsa py (ord ch) n e digitos_padding rnd of
        Inl err \<Rightarrow> Inl err
      | Inr c \<Rightarrow>
         (case cifrar_cadena_rsa py s n e digitos_padding (\<lambda>i. rnd (i + nat digitos_padding)) of
            Inl err \<Rightarrow> Inl err
          | Inr cs \<Rightarrow> Inr (c # cs)))"

text \<open>
  \<open>descifrar_cadena_rsa\<close>: the generator passed to \<open>join\<close> decrypts the elements from
  left to right; an exception of \<open>descifrar_rsa\<close> or of \<open>chr\<close> leaves the function.
\<close>

fun descifrar_cadena_rsa ::
  "plataforma \<Rightarrow> int list \<Rightarrow> int \<Rightarrow> int \<Rightarrow> int \<Rightarrow> error + pystr" where
  "descifrar_cadena_rsa py [] n d digitos_padding = Inr []"
| "descifrar_cadena_rsa py (c # clist) n d digitos_padding =
     (case descifrar_rsa py c n d digitos_padding of
        Inl err \<Rightarrow> Inl err
      | Inr x \<Rightarrow>
         (case chr x of
            Inl err \<Rightarrow> Inl err
          | Inr ch \<Rightarrow>
             (case descifrar_cadena_rsa py clist n d digitos_padding of
                Inl err \<Rightarrow> Inl err
              | Inr s \<Rightarrow> Inr (ch # s))))"

section \<open>rsa.py: the prime generator\<close>

text \<open>
  Modelled from the spec: \<open>modular.es_primo\<close> (not among the sources). The spec asks of
  \<open>is_prime(n)\<close> a primality test that classifies correctly the values it is used on;
  the model is trial division, which decides primality exactly.
\<close>

definition es_primo :: "int \<Rightarrow> bool" where
  "es_primo n = (2 \<le> n \<and> list_all (\<lambda>d. n mod d \<noteq> 0) [2..n - 1])"

lemma es_primo_iff: "es_primo n \<longleftrightarrow> 2 \<le> n \<and> (\<forall>d. 2 \<le> d \<and> d < n \<longrightarrow> \<not> d dvd n)"
  by (auto simp: es_primo_def list_all_iff dvd_eq_mod_eq_0)

lemma es_primo_ge2: "es_primo n \<Longrightarrow> 2 \<le> n"
  by (simp add: es_primo_iff)

lemma es_primo_divisor:
  assumes "es_primo p" "d dvd p" "0 \<le> d"
  shows "d = 1 \<or> d = p"
proof -
  from assms(1) have p: "2 \<le> p" by (rule es_primo_ge2)
  with assms(2) have "d \<le> p" by (intro zdvd_imp_le) simp_all
  moreover from assms(2) p have "d \<noteq> 0" by auto
  ultimately have "d = p \<or> (1 \<le> d \<and> d < p)" using assms(3) by linarith
  moreover have "\<not> (2 \<le> d \<and> d < p)" using assms(1,2) by (auto simp: es_primo_iff)
  ultimately show ?thesis by linarith
qed

lemma factor_primo: "2 \<le> n \<Longrightarrow> \<exists>p. es_primo p \<and> p dvd n"
proof (induction "nat n" arbitrary: n rule: less_induct)
  case less
  show ?case
  proof (cases "es_primo n")
    case True
    then show ?thesis by auto
  next
    case False
    with less.prems obtain d where d: "2 \<le> d" "d < n" "d dvd n"
      by (auto simp: es_primo_iff)
    then have "nat d < nat n" by simp
    from less.hyps [OF this d(1)] obtain p where "es_primo p" "p dvd d" by blast
    with d(3) show ?thesis by (meson dvd_trans)
  qed
qed

lemma primos_no_acotados: "\<exists>p. es_primo p \<and> n \<le> p"
proof -
  define m where "m = nat (max n 2)"
  define k where "k = int (fact m) + 1"
  have "2 \<le> k" unfolding k_def using fact_ge_1 [of m, where ?'a = nat] by linarith
  then obtain p where p: "es_primo p" "p dvd k" using factor_primo by blast
  have "int m < p"
  proof (rule ccontr)
    assume "\<not> int m < p"
    with es_primo_ge2 [OF p(1)] have "1 \<le> nat p" "nat p \<le> m" by simp_all
    then have "nat p dvd fact m" by (rule dvd_fact)
    then have "int (nat p) dvd int (fact m)" by (simp only: of_nat_dvd_iff)
    with es_primo_ge2 [OF p(1)] have "p dvd int (fact m)" by simp
    with p(2) have "p dvd 1" unfolding k_def by (simp add: dvd_add_right_iff)
    with es_primo_ge2 [OF p(1)] show False by simp
  qed
  then have "n \<le> p" unfolding m_def by linarith
  with p(1) show ?thesis by blast
qed

lemma primo_desde: "\<exists>k::nat. es_primo (n + int k)"
proof -
  from primos_no_acotados [of n] obtain p where "es_primo p" "n \<le> p" by blast
  then have "es_primo (n + int (nat (p - n)))" by simp
  then show ?thesis by blast
qed

text \<open>
  \<open>siguiente_primo\<close>: \<open>n += 1\<close>, then the loop \<open>while not es_primo(n): n += 1\<close>. The loop
  ends because there is a prime above every integer.
\<close>

function siguiente_primo_desde :: "int \<Rightarrow> int" where
  "siguiente_primo_desde n = (if \<not> es_primo n then siguiente_primo_desde (n + 1) else n)"
  by pat_completeness auto
termination
proof (relation "measure (\<lambda>n. LEAST k. es_primo (n + int k))")
  show "wf (measure (\<lambda>n. LEAST k. es_primo (n + int k)))" by simp
next
  fix n assume np: "\<not> es_primo n"
  let ?k = "LEAST k. es_primo (n + int k)"
  have k: "es_primo (n + int ?k)" using primo_desde [of n] by (rule LeastI_ex)
  with np have "?k \<noteq> 0" by (metis add.right_neutral of_nat_0)
  then obtain j where j: "?k = Suc j" by (cases ?k) simp_all
  have "n + int (Suc j) = n + 1 + int j" by simp
  with k j have "es_primo (n + 1 + int j)" by metis
  then have "(LEAST k. es_primo (n + 1 + int k)) \<le> j" by (rule Least_le)
  with j show "(n + 1, n) \<in> measure (\<lambda>n. LEAST k. es_primo (n + int k))" by simp
qed

declare siguiente_primo_desde.simps [simp del]

definition siguiente_primo :: "int \<Rightarrow> int" where
  "siguiente_primo n = siguiente_primo_desde (n + 1)"

text \<open>
  \<open>anterior_primo\<close>: the \<open>assert n > 2\<close>, whose failure is caught and turned into the
  value \<open>modular.NE\<close> (here \<open>None\<close>), then \<open>n -= 1\<close> and the loop
  \<open>while not es_primo(n): n -= 1\<close>. The loop starts at \<open>n - 1 \<ge> 2\<close> and ends at the prime
  \<open>2\<close> at the latest; below \<open>2\<close>, which it never reaches, the model stops.
\<close>

function anterior_primo_desde :: "int \<Rightarrow> int" where
  "anterior_primo_desde n =
     (if \<not> es_primo n \<and> 2 \<le> n then anterior_primo_desde (n - 1) else n)"
  by pat_completeness auto
termination
  by (relation "measure nat") auto

declare anterior_primo_desde.simps [simp del]

definition anterior_primo :: "int \<Rightarrow> int option" where
  "anterior_primo n = (if n > 2 then Some (anterior_primo_desde (n - 1)) else None)"


lemma siguiente_primo_desde_spec:
  "es_primo (siguiente_primo_desde n) \<and> n \<le> siguiente_primo_desde n"
proof (induction n rule: siguiente_primo_desde.induct)
  case (1 n)
  then show ?case by (subst (1 2) siguiente_primo_desde.simps) auto
qed

lemma siguiente_primo_spec: "es_primo (siguiente_primo n) \<and> n < siguiente_primo n"
  using siguiente_primo_desde_spec [of "n + 1"] by (simp add: siguiente_primo_def)

lemma es_primo_2: "es_primo 2"
  by (simp add: es_primo_def)

lemma anterior_primo_desde_spec:
  "2 \<le> n \<Longrightarrow> es_primo (anterior_primo_desde n) \<and> anterior_primo_desde n \<le> n"
proof (induction n rule: anterior_primo_desde.induct)
  case (1 n)
  show ?case
  proof (cases "es_primo n")
    case True
    then show ?thesis by (subst (1 2) anterior_primo_desde.simps) simp
  next
    case False
    with "1.prems" es_primo_2 have "2 \<le> n - 1" by (cases "n = 2") auto
    with 1 False show ?thesis by (subst (1 2) anterior_primo_desde.simps) auto
  qed
qed

lemma anterior_primo_Some:
  "anterior_primo n = Some p \<Longrightarrow> es_primo p \<and> p < n"
  using anterior_primo_desde_spec [of "n - 1"]
  by (auto simp: anterior_primo_def split: if_splits)

text \<open>
  \<open>generar_numeros_primos\<close>. \<open>subir\<close> is the loop
  \<open>while p in output_primos: p = siguiente_primo(p)\<close>, \<open>bajar\<close> the loop
  \<open>while p in output_primos: p = anterior_primo(p)\<close> (\<open>NE\<close> is in no list of primes).
\<close>

function subir :: "int list \<Rightarrow> int \<Rightarrow> int" where
  "subir output_primos p =
     (if p \<in> set output_primos then subir output_primos (siguiente_primo p) else p)"
  by pat_completeness auto
termination
proof (relation "measure (\<lambda>(out, p). length (filter (\<lambda>x. p \<le> x) out))")
  show "wf (measure (\<lambda>(out, p). length (filter (\<lambda>x. p \<le> x) out)))" by simp
next
  fix output_primos :: "int list" and p :: int
  assume mem: "p \<in> set output_primos"
  let ?q = "siguiente_primo p"
  have lt: "p < ?q" using siguiente_primo_spec by blast
  have "filter (\<lambda>x. ?q \<le> x) output_primos
      = filter (\<lambda>x. ?q \<le> x) (filter (\<lambda>x. p \<le> x) output_primos)"
    using lt by (auto intro: filter_cong)
  moreover have "length (filter (\<lambda>x. ?q \<le> x) (filter (\<lambda>x. p \<le> x) output_primos))
      < length (filter (\<lambda>x. p \<le> x) output_primos)"
    using mem lt by (intro length_filter_less [of p]) auto
  ultimately show "((output_primos, ?q), (output_primos, p))
      \<in> measure (\<lambda>(out, p). length (filter (\<lambda>x. p \<le> x) out))"
    by simp
qed

declare subir.simps [simp del]

function bajar :: "int list \<Rightarrow> int option \<Rightarrow> int option" where
  "bajar output_primos None = None"
| "bajar output_primos (Some p) =
     (if p \<in> set output_primos then bajar output_primos (anterior_primo p) else Some p)"
  by pat_completeness auto
termination
proof (relation "measure (\<lambda>(out, po). case po of None \<Rightarrow> 0 | Some p \<Rightarrow> Suc (nat p))")
  show "wf (measure (\<lambda>(out, po). case po of None \<Rightarrow> 0 | Some p \<Rightarrow> Suc (nat p)))" by simp
next
  fix output_primos :: "int list" and p :: int
  assume "p \<in> set output_primos"
  show "((output_primos, anterior_primo p), (output_primos, Some p))
      \<in> measure (\<lambda>(out, po). case po of None \<Rightarrow> 0 | Some p \<Rightarrow> Suc (nat p))"
  proof (cases "anterior_primo p")
    case None
    then show ?thesis by simp
  next
    case (Some q)
    from anterior_primo_Some [OF this] have "2 \<le> q" "q < p"
      by (simp_all add: es_primo_ge2)
    with Some show ?thesis by simp
  qed
qed

declare bajar.simps [simp del]

text \<open>
  The body of \<open>for n in lista_aleatorios\<close>; \<open>p < min_primo or isinstance(p, float)\<close>
  raises both for a prime below the interval and for \<open>NE\<close>.
\<close>

fun generar_bucle :: "int \<Rightarrow> int \<Rightarrow> int list \<Rightarrow> int list \<Rightarrow> error + int list" where
  "generar_bucle min_primo max_primo output_primos [] = Inr output_primos"
| "generar_bucle min_primo max_primo output_primos (n # lista_aleatorios) =
     (let p = subir output_primos (siguiente_primo n);
          p = (if p \<ge> max_primo then bajar output_primos (anterior_primo max_primo) else Some p)
      in case p of
           None \<Rightarrow> Inl (ValueError NoExistenPrimos)
         | Some p \<Rightarrow>
            if p < min_primo then Inl (ValueError NoExistenPrimos)
            else generar_bucle min_primo max_primo (output_primos @ [p]) lista_aleatorios)"

text \<open>
  The \<open>i\<close>-th element of \<open>lista_aleatorios\<close> is \<open>random.randint(min_primo - 1, max_primo)\<close>
  on the raw value \<open>rnd i\<close>. The function returns the list \<open>output_primos\<close> (the source
  returns its only element when the list has one, a tuple of its elements otherwise).
\<close>

definition generar_numeros_primos :: "int \<Rightarrow> int \<Rightarrow> int \<Rightarrow> (nat \<Rightarrow> nat) \<Rightarrow> error + int list" where
  "generar_numeros_primos min_primo max_primo numero rnd =
     (if numero < 1 then Inl (ValueError NumeroPrimos)
      else if min_primo > max_primo then Inl (ValueError MinMayorMax)
      else generar_bucle min_primo max_primo []
             (map (\<lambda>i. randint (min_primo - 1) max_primo (rnd i)) [0..<nat numero]))"


section \<open>The modular arithmetic library: greatest common divisor and inverse\<close>

text \<open>
  Modelled from the spec: \<open>modular.coprimos\<close> (not among the sources); the spec's
  \<open>are_coprime(a, b)\<close> is \<open>gcd(a, b) == 1\<close>, the greatest common divisor computed by
  Euclid's algorithm.
\<close>

function mcd :: "int \<Rightarrow> int \<Rightarrow> int" where
  "mcd a b = (if b = 0 then \<bar>a\<bar> else mcd b (a mod b))"
  by pat_completeness auto
termination
  by (relation "measure (\<lambda>(a, b). nat \<bar>b\<bar>)") (auto simp: abs_mod_less)

declare mcd.simps [simp del]

definition coprimos :: "int \<Rightarrow> int \<Rightarrow> bool" where
  "coprimos a b = (mcd a b = 1)"

text \<open>
  Modelled from the spec: \<open>modular.inversa_mod_p\<close> (not among the sources). The spec's
  \<open>mod_inverse(a, modulus)\<close> "returns the unique integer \<open>x\<close> in \<open>[0, modulus)\<close> with
  \<open>a*x \<equiv> 1 (mod modulus)\<close>, via extended Euclidean algorithm; fails when
  \<open>gcd(a, modulus) != 1\<close>", with a domain error. No such \<open>x\<close> exists for a modulus that
  is not positive.
\<close>

function euclides_ext :: "int \<Rightarrow> int \<Rightarrow> int \<times> int \<times> int" where
  "euclides_ext a b =
     (if b = 0 then (a, 1, 0)
      else case euclides_ext b (a mod b) of (g, x, y) \<Rightarrow> (g, y, x - (a div b) * y))"
  by pat_completeness auto
termination
  by (relation "measure (\<lambda>(a, b). nat \<bar>b\<bar>)") (auto simp: abs_mod_less)

declare euclides_ext.simps [simp del]

definition inversa_mod_p :: "int \<Rightarrow> int \<Rightarrow> error + int" where
  "inversa_mod_p a p =
     (if p \<le> 0 then Inl DomainError
      else case euclides_ext a p of (g, x, y) \<Rightarrow>
             if g \<noteq> 1 then Inl DomainError else Inr (x mod p))"

section \<open>rsa.py: the key generator\<close>

text \<open>
  \<open>generar_claves\<close>. The loop \<open>while True: e = random.randrange(1, phi, 2); ...\<close> has no
  bound: \<open>elegir_e\<close> runs it on the raw random values \<open>rs\<close>, one per iteration, and is
  \<open>None\<close> when it is still running after the last of them.
\<close>

fun elegir_e :: "int \<Rightarrow> nat list \<Rightarrow> (error + int) option" where
  "elegir_e phi [] = None"
| "elegir_e phi (r # rs) =
     (case randrange 1 phi 2 r of
        Inl err \<Rightarrow> Some (Inl err)
      | Inr e \<Rightarrow> if coprimos phi e then Some (Inr e) else elegir_e phi rs)"

text \<open>
  The two primes are unpacked from the result of \<open>generar_numeros_primos\<close>, which
  draws its two seeds from \<open>rnd 0\<close> and \<open>rnd 1\<close>.
\<close>

definition generar_claves ::
  "int \<Rightarrow> int \<Rightarrow> (nat \<Rightarrow> nat) \<Rightarrow> nat list \<Rightarrow> (error + int \<times> int \<times> int) option" where
  "generar_claves min_primo max_primo rnd rs =
     (case generar_numeros_primos min_primo max_primo 2 rnd of
        Inl err \<Rightarrow> Some (Inl err)
      | Inr [primo_1, primo_2] \<Rightarrow>
         (let n = primo_1 * primo_2;
              phi = (primo_1 - 1) * (primo_2 - 1)
          in case elegir_e phi rs of
               None \<Rightarrow> None
             | Some (Inl err) \<Rightarrow> Some (Inl err)
             | Some (Inr e) \<Rightarrow>
                (case inversa_mod_p e phi of
                   Inl err \<Rightarrow> Some (Inl err)
                 | Inr d \<Rightarrow> Some (Inr (n, e, d))))
      | Inr _ \<Rightarrow> Some (Inl (ValueError Unpack)))"


section \<open>rsa.py: key recovery\<close>

text \<open>
  Modelled from the spec: \<open>modular.euler\<close> (not among the sources). The spec's
  \<open>euler_totient(n)\<close> "must factor \<open>n\<close> into its two prime factors and return
  \<open>(p-1)*(q-1)\<close>": the model searches the least factor \<open>p\<close> from \<open>2\<close> upwards and takes
  \<open>q = n div p\<close>.
\<close>

function menor_factor :: "int \<Rightarrow> int \<Rightarrow> int" where
  "menor_factor n d = (if d < n \<and> n mod d \<noteq> 0 then menor_factor n (d + 1) else d)"
  by pat_completeness auto
termination
  by (relation "measure (\<lambda>(n, d). nat (n - d))") auto

declare menor_factor.simps [simp del]

definition euler :: "int \<Rightarrow> int" where
  "euler n = (let p = menor_factor n 2; q = n div p in (p - 1) * (q - 1))"

text \<open>
  \<open>romper_clave\<close>: in \<open>assert 1 < e < (phi := modular.euler(n)) and ...\<close> the totient is
  computed only when \<open>1 < e\<close> holds.
\<close>

definition romper_clave :: "int \<Rightarrow> int \<Rightarrow> error + int" where
  "romper_clave n e =
     (if \<not> 1 < e then Inl AssertionError
      else let phi = euler n
           in if \<not> e < phi then Inl AssertionError
              else if \<not> coprimos phi e then Inl AssertionError
              else inversa_mod_p e phi)"


section \<open>criptochat.py: key validation and the inbox\<close>

text \<open>
  \<open>PADDING_DIGITS\<close> is a module-level variable that the program can change while it
  runs, so the functions that read it take it as the argument \<open>padding_digits\<close>.
\<close>

definition test_message :: pystr where
  "test_message = map of_char ''test-message''"

text \<open>
  \<open>valid\<close>: the \<open>try\<close> block encrypts and decrypts the literal; its only handler is
  \<open>except OverflowError\<close>, every other exception leaves the function.
\<close>

definition valid ::
  "plataforma \<Rightarrow> int \<Rightarrow> int \<Rightarrow> int \<Rightarrow> int \<Rightarrow> (nat \<Rightarrow> nat) \<Rightarrow> error + bool" where
  "valid py n e d padding_digits rnd =
     (case cifrar_cadena_rsa py test_message n e padding_digits rnd of
        Inl err \<Rightarrow> if err = OverflowError then Inr False else Inl err
      | Inr clist \<Rightarrow>
         (case descifrar_cadena_rsa py clist n d padding_digits of
            Inl err \<Rightarrow> if err = OverflowError then Inr False else Inl err
          | Inr s \<Rightarrow> Inr (if test_message = s then True else False)))"

record user_key =
  public_key :: "int \<times> int"
  private_key :: "int \<times> int"

type_synonym container = "nat \<times> pystr \<times> int list option"

record user =
  username :: pystr
  user_key :: user_key
  user_id :: nat
  inbox :: "container list option"

definition find_user :: "(nat \<rightharpoonup> user) \<Rightarrow> nat \<Rightarrow> error + user" where
  "find_user users username_id =
     (case users username_id of Some u \<Rightarrow> Inr u | None \<Rightarrow> Inl UserNotFound)"

definition mensaje_corrupto :: pystr where
  "mensaje_corrupto = map of_char ''MENSAJE CORRUPTO''"

text \<open>
  \<open>User.check_inbox\<close>: the loop over the containers of the inbox. A container whose
  message is \<open>None\<close> and a container whose decryption raises \<open>ValueError\<close> are both
  reported with the text \<open>MENSAJE CORRUPTO\<close>; no other exception is handled.
\<close>

fun check_containers ::
  "plataforma \<Rightarrow> (nat \<rightharpoonup> user) \<Rightarrow> int \<Rightarrow> int \<Rightarrow> int \<Rightarrow> container list \<Rightarrow>
     error + (pystr \<times> pystr \<times> pystr) list" where
  "check_containers py users n d padding_digits [] = Inr []"
| "check_containers py users n d padding_digits ((username_id, date, message) # rest) =
     (case find_user users username_id of
        Inl err \<Rightarrow> Inl err
      | Inr u \<Rightarrow>
         (case (case message of
                  None \<Rightarrow> Inr mensaje_corrupto
                | Some clist \<Rightarrow>
                   (case descifrar_cadena_rsa py clist n d padding_digits of
                      Inl (ValueError t) \<Rightarrow> Inr mensaje_corrupto
                    | Inl err \<Rightarrow> Inl err
                    | Inr s \<Rightarrow> Inr s)) of
            Inl err \<Rightarrow> Inl err
          | Inr text \<Rightarrow>
             (case check_containers py users n d padding_digits rest of
                Inl err \<Rightarrow> Inl err
              | Inr decrypted_messages \<Rightarrow> Inr ((username u, date, text) # decrypted_messages))))"

definition check_inbox ::
  "plataforma \<Rightarrow> (nat \<rightharpoonup> user) \<Rightarrow> user \<Rightarrow> int \<Rightarrow>
     error + (pystr \<times> pystr \<times> pystr) list option" where
  "check_inbox py users self padding_digits =
     (case inbox self of
        None \<Rightarrow> Inr None
      | Some containers \<Rightarrow>
         (case check_containers py users (fst (private_key (user_key self)))
                 (snd (private_key (user_key self))) padding_digits containers of
            Inl err \<Rightarrow> Inl err
          | Inr decrypted_messages \<Rightarrow> Inr (Some decrypted_messages)))"

section \<open>Auxiliary notions of the statements\<close>

text \<open>A list of pairwise distinct primes of the interval \<open>[mn, mx)\<close>.\<close>

definition primos_validos :: "int \<Rightarrow> int \<Rightarrow> int list \<Rightarrow> bool" where
  "primos_validos mn mx ps =
     (distinct ps \<and> list_all (\<lambda>p. es_primo p \<and> mn \<le> p \<and> p < mx) ps)"

text \<open>
  The keypair invariant: \<open>n\<close> is the product of the distinct primes \<open>p\<close> and \<open>q\<close>, \<open>e\<close> is
  an odd number of \<open>[1, phi)\<close> coprime with \<open>phi = (p-1)*(q-1)\<close>, and \<open>d\<close> is the inverse
  of \<open>e\<close> modulo \<open>phi\<close> in \<open>[0, phi)\<close>.
\<close>

definition es_clave :: "int \<Rightarrow> int \<Rightarrow> int \<Rightarrow> int \<Rightarrow> int \<Rightarrow> bool" where
  "es_clave p q n e d =
     (let phi = (p - 1) * (q - 1)
      in es_primo p \<and> es_primo q \<and> p \<noteq> q \<and> n = p * q \<and>
         odd e \<and> 1 \<le> e \<and> e < phi \<and> coprimos phi e \<and>
         0 \<le> d \<and> d < phi \<and> e * d mod phi = 1)"

text \<open>A registered user whose inbox holds one message of two cipher values.\<close>

definition usuario_ana :: user where
  "usuario_ana =
     \<lparr>username = map of_char ''ana'',
      user_key = \<lparr>public_key = (10403, 7), private_key = (10403, 8743)\<rparr>,
      user_id = 0,
      inbox = Some [(0, map of_char ''hoy'', Some [9439, 0])]\<rparr>"

text \<open>
  A registered user whose inbox holds one message of one cipher value; it decrypts to
  \<open>2^33\<close>, which is no C \<open>int\<close>.
\<close>

definition usuario_eva :: user where
  "usuario_eva =
     \<lparr>username = map of_char ''eva'',
      user_key = \<lparr>public_key = (10000000000, 3), private_key = (10000000000, 3)\<rparr>,
      user_id = 1,
      inbox = Some [(1, map of_char ''hoy'', Some [2048])]\<rparr>"

text \<open>Decrypting one element of a cipher list into its character.\<close>

definition descifrar_caracter :: "plataforma \<Rightarrow> int \<Rightarrow> int \<Rightarrow> int \<Rightarrow> int \<Rightarrow> error + nat" where
  "descifrar_caracter py c n d digitos_padding =
     (case descifrar_rsa py c n d digitos_padding of Inl err \<Rightarrow> Inl err | Inr x \<Rightarrow> chr x)"


text \<open>The numeric value of the \<open>k\<close> random digits that \<open>aplicar_padding\<close> appends.\<close>

fun sufijo :: "(nat \<Rightarrow> nat) \<Rightarrow> nat \<Rightarrow> int" where
  "sufijo rnd 0 = 0"
| "sufijo rnd (Suc k) = 10 * sufijo rnd k + int (rnd k mod 10)"

text \<open>
  The decimal digit count of an integer, as the length of its decimal numeral (without
  the sign).
\<close>

definition num_cifras :: "int \<Rightarrow> int" where
  "num_cifras v = int (length (str_nat (nat \<bar>v\<bar>)))"

text \<open>
  An example platform for the instances below: the conversion limit is the default of
  CPython 3.11, and the integer part of \<open>log10\<close> is exact except at \<open>10^15 - 1\<close>, where the
  double nearest to the logarithm is \<open>15.0\<close>.
\<close>

definition plataforma_ejemplo :: plataforma where
  "plataforma_ejemplo =
     \<lparr>trunc_log10 = (\<lambda>m. if m = 999999999999999 then 15 else num_cifras m - 1),
      max_str_digits = 4300\<rparr>"

section \<open>Decimal numerals\<close>

lemma char_digit_digit_char: "d < 10 \<Longrightarrow> char_digit (digit_char d) = int d"
  by (simp add: char_digit_def digit_char_def)

lemma int_digits_append:
  "int_digits (xs @ ys) = foldl (\<lambda>acc c. 10 * acc + char_digit c) (int_digits xs) ys"
  by (simp add: int_digits_def)

lemma int_digits_snoc: "int_digits (xs @ [c]) = 10 * int_digits xs + char_digit c"
  by (simp add: int_digits_def)

lemma int_digits_str_nat: "int_digits (str_nat n) = int n"
proof (induction n rule: str_nat.induct)
  case (1 n)
  show ?case
  proof (cases "n < 10")
    case True
    then show ?thesis
      by (subst str_nat.simps) (simp add: int_digits_def char_digit_digit_char)
  next
    case False
    with 1 have "int_digits (str_nat (n div 10)) = int (n div 10)" by simp
    with False show ?thesis
      by (subst str_nat.simps) (simp add: int_digits_snoc char_digit_digit_char zdiv_int zmod_int)
  qed
qed

lemma str_int_randint: "str_int (randint 0 9 r) = [digit_char (r mod 10)]"
proof -
  have "randint 0 9 r = int (r mod 10)" by (simp add: randint_def zmod_int)
  then show ?thesis by (simp add: str_int_def str_nat.simps)
qed

lemma sufijo_bounds: "0 \<le> sufijo rnd k \<and> sufijo rnd k < 10 ^ k"
  by (induction k) auto

lemma int_digits_padding:
  "int_digits (xs @ concat (map (\<lambda>i. str_int (randint 0 9 (rnd i))) [0..<k]))
     = int_digits xs * 10 ^ k + sufijo rnd k"
proof (induction k)
  case 0
  show ?case by simp
next
  case (Suc k)
  have "int_digits (xs @ concat (map (\<lambda>i. str_int (randint 0 9 (rnd i))) [0..<Suc k]))
      = int_digits ((xs @ concat (map (\<lambda>i. str_int (randint 0 9 (rnd i))) [0..<k])) @ [digit_char (rnd k mod 10)])"
    by (simp add: str_int_randint)
  also have "\<dots> = 10 * (int_digits xs * 10 ^ k + sufijo rnd k) + int (rnd k mod 10)"
    by (simp only: int_digits_snoc Suc.IH) (simp add: char_digit_digit_char)
  finally show ?case by (simp add: algebra_simps)
qed

lemma length_padding:
  "length (concat (map (\<lambda>i. str_int (randint 0 9 (rnd i))) [0..<k])) = k"
  by (induction k) (simp_all add: str_int_randint)

lemma digit_char_not_minus: "d < 10 \<Longrightarrow> digit_char d \<noteq> CHR ''-''"
proof
  assume d: "d < 10" and "digit_char d = CHR ''-''"
  then have "(of_char (digit_char d) :: nat) = of_char (CHR ''-'')" by simp
  with d show False by (simp add: digit_char_def)
qed

lemma str_nat_not_minus: "str_nat n \<noteq> [] \<and> hd (str_nat n) \<noteq> CHR ''-''"
proof (induction n rule: str_nat.induct)
  case (1 n)
  show ?case
  proof (cases "n < 10")
    case True
    then show ?thesis
      by (subst (1 2) str_nat.simps) (simp add: digit_char_not_minus)
  next
    case False
    with 1 show ?thesis
      by (subst (1 2) str_nat.simps) simp
  qed
qed

lemma int_str_digits: "s \<noteq> [] \<Longrightarrow> hd s \<noteq> CHR ''-'' \<Longrightarrow> int_str s = int_digits s"
  by (cases s) (simp_all add: int_str_def)

lemma sin_signo_digits: "s \<noteq> [] \<Longrightarrow> hd s \<noteq> CHR ''-'' \<Longrightarrow> sin_signo s = s"
  by (cases s) (simp_all add: sin_signo_def)

lemma excede_mono: "excede py a \<Longrightarrow> a \<le> b \<Longrightarrow> excede py b"
  by (simp add: excede_def)

lemma aplicar_padding_value:
  assumes "0 \<le> m" "0 \<le> k"
  shows "aplicar_padding py m k rnd =
     (if excede py (nat (num_cifras m + k)) then Inl (ValueError MaxStrDigits)
      else Inr (m * 10 ^ nat k + sufijo rnd (nat k)))"
proof -
  let ?pad = "concat (map (\<lambda>i. str_int (randint 0 9 (rnd i))) [0..<nat k])"
  let ?s = "str_int m @ ?pad"
  have sm: "str_int m = str_nat (nat m)" using assms by (simp add: str_int_def)
  have nm: "sin_signo (str_int m) = str_int m"
    using str_nat_not_minus [of "nat m"] by (simp add: sm sin_signo_digits)
  have "?s \<noteq> [] \<and> hd ?s \<noteq> CHR ''-''"
    using str_nat_not_minus [of "nat m"] by (simp add: sm)
  then have ns: "sin_signo ?s = ?s" and ids: "int_str ?s = int_digits ?s"
    by (simp_all add: sin_signo_digits int_str_digits)
  have lm: "length (str_int m) = nat (num_cifras m)"
    using assms by (simp add: sm num_cifras_def)
  have ls: "length (str_int m) + length ?pad = nat (num_cifras m + k)"
    using assms by (simp add: lm length_padding num_cifras_def nat_add_distrib)
  have "int_digits ?s = int_digits (str_int m) * 10 ^ nat k + sufijo rnd (nat k)"
    by (rule int_digits_padding)
  also have "int_digits (str_int m) = m" using assms by (simp add: sm int_digits_str_nat)
  finally have v: "int_str ?s = m * 10 ^ nat k + sufijo rnd (nat k)" by (simp add: ids)
  show ?thesis
  proof (cases "excede py (nat (num_cifras m + k))")
    case True
    then have "int_py py ?s = Inl (ValueError MaxStrDigits)"
      by (simp add: int_py_def ns ls)
    with True assms show ?thesis
      by (simp add: aplicar_padding_def str_py_def)
  next
    case False
    have "nat (num_cifras m) \<le> nat (num_cifras m + k)" using assms by simp
    with False have "\<not> excede py (nat (num_cifras m))" using excede_mono by blast
    then have "str_py py m = Inr (str_int m)" by (simp add: str_py_def nm lm)
    moreover from False have "int_py py ?s = Inr (m * 10 ^ nat k + sufijo rnd (nat k))"
      by (simp add: int_py_def ns ls v)
    ultimately show ?thesis using False assms by (simp add: aplicar_padding_def)
  qed
qed

section \<open>The padding codec\<close>

text \<open>
  Claim C9, as amended. For every message integer \<open>m \<ge> 0\<close> and every digit count
  \<open>k \<ge> 0\<close>: when the numeral of \<open>m\<close> followed by \<open>k\<close> digits is within the conversion
  limit of the interpreter, \<open>aplicar_padding m k\<close> returns \<open>m * 10^k + s\<close> for some \<open>s\<close>
  with \<open>0 \<le> s < 10^k\<close> (the \<open>k\<close> random digits, appended as a numeric suffix); when it is
  longer than the limit, the conversion raises \<open>ValueError\<close>. The function raises its
  validation error whenever \<open>k < 0\<close> or \<open>m < 0\<close>.
\<close>

theorem aplicar_padding_spec:
  "(0 \<le> m \<and> 0 \<le> k \<and> \<not> excede py (nat (num_cifras m + k)) \<longrightarrow>
      (\<exists>s. 0 \<le> s \<and> s < 10 ^ nat k \<and> aplicar_padding py m k rnd = Inr (m * 10 ^ nat k + s))) \<and>
   (0 \<le> m \<and> 0 \<le> k \<and> excede py (nat (num_cifras m + k)) \<longrightarrow>
      aplicar_padding py m k rnd = Inl (ValueError MaxStrDigits)) \<and>
   (k < 0 \<or> m < 0 \<longrightarrow> aplicar_padding py m k rnd = Inl (ValueError EntradaIncorrecta))"
proof (intro conjI impI)
  assume "0 \<le> m \<and> 0 \<le> k \<and> \<not> excede py (nat (num_cifras m + k))"
  then have "aplicar_padding py m k rnd = Inr (m * 10 ^ nat k + sufijo rnd (nat k))"
    by (simp add: aplicar_padding_value)
  with sufijo_bounds [of rnd "nat k"]
  show "\<exists>s. 0 \<le> s \<and> s < 10 ^ nat k \<and> aplicar_padding py m k rnd = Inr (m * 10 ^ nat k + s)"
    by blast
next
  assume "0 \<le> m \<and> 0 \<le> k \<and> excede py (nat (num_cifras m + k))"
  then show "aplicar_padding py m k rnd = Inl (ValueError MaxStrDigits)"
    by (simp add: aplicar_padding_value)
next
  assume "k < 0 \<or> m < 0"
  then show "aplicar_padding py m k rnd = Inl (ValueError EntradaIncorrecta)"
    by (auto simp: aplicar_padding_def)
qed

lemma nc_72: "num_cifras 72 = 2" by (simp add: num_cifras_def str_nat.simps)
lemma nc_1: "num_cifras 1 = 1" by (simp add: num_cifras_def str_nat.simps)

theorem aplicar_padding_spec_witness:
  "(0::int) \<le> 72 \<and> (0::int) \<le> 3 \<and> \<not> excede plataforma_ejemplo (nat (num_cifras 72 + 3)) \<and>
   (\<exists>s. 0 \<le> s \<and> s < 10 ^ nat 3 \<and>
        aplicar_padding plataforma_ejemplo 72 3 (\<lambda>i. 7 + i) = Inr (72 * 10 ^ nat 3 + s)) \<and>
   (0::int) \<le> 1 \<and> excede plataforma_ejemplo (nat (num_cifras 1 + 4300)) \<and>
   aplicar_padding plataforma_ejemplo 1 4300 (\<lambda>i. 7 + i) = Inl (ValueError MaxStrDigits) \<and>
   aplicar_padding plataforma_ejemplo 72 (- 1) (\<lambda>i. 7 + i) = Inl (ValueError EntradaIncorrecta)"
proof -
  have a: "\<not> excede plataforma_ejemplo (nat (num_cifras 72 + 3))"
    and b: "excede plataforma_ejemplo (nat (num_cifras 1 + 4300))"
    by (simp_all add: nc_72 nc_1 excede_def plataforma_ejemplo_def)
  from a aplicar_padding_spec [of 72 3 plataforma_ejemplo "\<lambda>i. 7 + i"]
  have 1: "\<exists>s. 0 \<le> s \<and> s < 10 ^ nat 3 \<and>
        aplicar_padding plataforma_ejemplo 72 3 (\<lambda>i. 7 + i) = Inr (72 * 10 ^ nat 3 + s)"
    by simp
  from b aplicar_padding_spec [of 1 4300 plataforma_ejemplo "\<lambda>i. 7 + i",
      THEN conjunct2, THEN conjunct1]
  have 2: "aplicar_padding plataforma_ejemplo 1 4300 (\<lambda>i. 7 + i) = Inl (ValueError MaxStrDigits)"
    by simp
  from aplicar_padding_spec [of 72 "- 1" plataforma_ejemplo "\<lambda>i. 7 + i"]
  have 3: "aplicar_padding plataforma_ejemplo 72 (- 1) (\<lambda>i. 7 + i) = Inl (ValueError EntradaIncorrecta)"
    by simp
  from a b 1 2 3 show ?thesis by simp
qed

text \<open>
  Claim C9 as stated fails on an interpreter with the default limit: the numeral of \<open>1\<close>
  followed by \<open>4300\<close> digits has \<open>4301\<close> characters, and \<open>int\<close> refuses it.
\<close>

theorem aplicar_padding_limite_counterexample:
  "(0::int) \<le> 1 \<and> (0::int) \<le> 4300 \<and>
   aplicar_padding plataforma_ejemplo 1 4300 (\<lambda>i. 7) = Inl (ValueError MaxStrDigits)"
  by (simp add: aplicar_padding_value nc_1 excede_def plataforma_ejemplo_def)

lemma length_str_nat: "0 < n \<Longrightarrow> length (str_nat n) = floorlog 10 n"
proof (induction n rule: str_nat.induct)
  case (1 n)
  show ?case
  proof (cases "n < 10")
    case True
    with 1(2) have "floorlog 10 n = 1"
      by (subst compute_floorlog) (simp add: floorlog_def)
    with True show ?thesis by (subst str_nat.simps) simp
  next
    case False
    then have pos: "0 < n div 10" by simp
    with 1 False have "length (str_nat (n div 10)) = floorlog 10 (n div 10)" by simp
    moreover have "floorlog 10 n = floorlog 10 (n div 10) + 1"
      using 1(2) by (subst compute_floorlog) simp
    ultimately show ?thesis using False by (subst str_nat.simps) simp
  qed
qed

lemma int_log10_pos:
  "1 \<le> v \<Longrightarrow> v < 10 ^ 13 \<Longrightarrow> int_log10 py v = Inr (num_cifras v - 1)"
  by (simp add: int_log10_def num_cifras_def length_str_nat)

lemma int_log10_grande:
  "10 ^ 13 \<le> v \<Longrightarrow> int_log10 py v = Inr (trunc_log10 py v)"
  by (simp add: int_log10_def)

lemma num_cifras_bounds:
  assumes "1 \<le> v"
  shows "10 ^ nat (num_cifras v - 1) \<le> v" and "v < 10 ^ nat (num_cifras v)"
proof -
  have n: "0 < nat v" using assms by simp
  have nc: "num_cifras v = int (floorlog 10 (nat v))"
    using assms by (simp add: num_cifras_def length_str_nat)
  from floorlog_bounds [OF n, of 10]
  have a: "10 ^ (floorlog 10 (nat v) - 1) \<le> nat v" and b: "nat v < 10 ^ floorlog 10 (nat v)"
    by simp_all
  from a have "int (10 ^ (floorlog 10 (nat v) - 1)) \<le> int (nat v)" by (simp only: of_nat_le_iff)
  then show "10 ^ nat (num_cifras v - 1) \<le> v" using assms by (simp add: nc nat_diff_distrib')
  from b have "int (nat v) < int (10 ^ floorlog 10 (nat v))" by (simp only: of_nat_less_iff)
  then show "v < 10 ^ nat (num_cifras v)" using assms by (simp add: nc)
qed

lemma num_cifras_pos: "1 \<le> num_cifras v"
proof -
  have "str_nat (nat \<bar>v\<bar>) \<noteq> []" using str_nat_not_minus by blast
  then have "0 < length (str_nat (nat \<bar>v\<bar>))" by simp
  then show ?thesis unfolding num_cifras_def by linarith
qed

lemma num_cifras_le:
  assumes "1 \<le> v" "v < 10 ^ j"
  shows "num_cifras v \<le> int j"
proof -
  from num_cifras_bounds(1) [OF assms(1)] assms(2)
  have "(10::int) ^ nat (num_cifras v - 1) < 10 ^ j" by linarith
  then have "nat (num_cifras v - 1) < j" by (simp add: power_strict_increasing_iff)
  then show ?thesis by linarith
qed

lemma eliminar_padding_pos:
  assumes "1 \<le> v" "v < 10 ^ 13"
  shows "eliminar_padding py v d =
     (if 0 \<le> d \<and> d < num_cifras v then Inr (v div 10 ^ nat d) else Inl (ValueError DigitosPadding))"
  using assms by (simp add: eliminar_padding_def int_log10_pos)





section \<open>The message codec\<close>

lemma potencia_bin_eq: "potencia_bin b e n = b ^ e mod n"
proof (induction b e n rule: potencia_bin.induct)
  case (1 b e n)
  show ?case
  proof (cases "e = 0")
    case True
    then show ?thesis by (subst potencia_bin.simps) simp
  next
    case False
    with 1 have IH: "potencia_bin (b * b mod n) (e div 2) n = (b * b mod n) ^ (e div 2) mod n"
      by simp
    have sq: "(b * b mod n) ^ (e div 2) mod n = b ^ (2 * (e div 2)) mod n"
      by (simp add: power_mod power_mult power2_eq_square)
    show ?thesis
    proof (cases "even e")
      case True
      then have "2 * (e div 2) = e" by simp
      with False True IH sq show ?thesis
        by (subst potencia_bin.simps) (simp add: Let_def)
    next
      case odd: False
      then have e: "e = Suc (2 * (e div 2))" by (metis odd_two_times_div_two_succ Suc_eq_plus1)
      have "b * (b ^ (2 * (e div 2)) mod n) mod n = b ^ Suc (2 * (e div 2)) mod n"
        by (simp add: mod_mult_right_eq)
      with e have "b * (b ^ (2 * (e div 2)) mod n) mod n = b ^ e mod n" by simp
      with False odd IH sq show ?thesis
        by (subst potencia_bin.simps) (simp add: Let_def)
    qed
  qed
qed

lemma potencia_mod_p_eq: "0 < n \<Longrightarrow> potencia_mod_p b e n = Inr (b ^ nat e mod n)"
  by (simp add: potencia_mod_p_def potencia_bin_eq)

lemma padded_bound:
  assumes m: "1 \<le> m" and n: "1 \<le> n" and k: "0 \<le> k"
    and c: "num_cifras m + k < num_cifras n" and s: "s < 10 ^ nat k"
  shows "m * 10 ^ nat k + s < n"
proof -
  have "m * 10 ^ nat k + s < (m + 1) * 10 ^ nat k" using s by (simp add: algebra_simps)
  also have "\<dots> \<le> 10 ^ nat (num_cifras m) * 10 ^ nat k"
    using num_cifras_bounds(2) [OF m] by (intro mult_right_mono) simp_all
  also have "\<dots> = 10 ^ (nat (num_cifras m) + nat k)" by (simp add: power_add)
  also have "\<dots> \<le> 10 ^ nat (num_cifras n - 1)"
    using c k num_cifras_pos [of m] by (intro power_increasing) simp_all
  also have "\<dots> \<le> n" by (rule num_cifras_bounds(1) [OF n])
  finally show ?thesis .
qed

lemma cifrar_rsa_pos:
  assumes "1 \<le> m" "m < 10 ^ 13" "1 \<le> n" "n < 10 ^ 13" "0 \<le> e" "0 \<le> k"
  shows "cifrar_rsa py m n e k rnd =
     (if num_cifras m + k < num_cifras n
      then Inr ((m * 10 ^ nat k + sufijo rnd (nat k)) ^ nat e mod n)
      else Inl AssertionError)"
proof (cases "num_cifras m + k < num_cifras n")
  case True
  from num_cifras_le [OF assms(3,4)] True have "nat (num_cifras m + k) \<le> 13" by simp
  then have "\<not> excede py (nat (num_cifras m + k))" by (simp add: excede_def)
  with True assms show ?thesis
    by (simp add: cifrar_rsa_def int_log10_pos aplicar_padding_value potencia_mod_p_eq)
next
  case False
  with assms show ?thesis by (simp add: cifrar_rsa_def int_log10_pos)
qed

lemma cifrar_rsa_cero:
  "cifrar_rsa py 0 n e k rnd =
     Inl (ValueError (if n < 0 \<or> e < 0 \<or> k < 0 then EntradaIncorrecta else MathDomain))"
  by (simp add: cifrar_rsa_def int_log10_def)

text \<open>
  The logarithm of \<open>10^15 - 1\<close> lies less than \<open>2^-50\<close> below \<open>15\<close>. The doubles next to
  \<open>15\<close> are \<open>15 - 2^-49\<close> and \<open>15\<close> itself, so the double nearest to the logarithm is
  \<open>15.0\<close>.
\<close>

lemma ln_10_ge_2: "2 \<le> ln (10::real)"
proof -
  have "exp (2::real) = exp 1 * exp 1" by (simp add: exp_add [symmetric])
  also have "\<dots> \<le> 3 * 3" by (intro mult_mono exp_le) simp_all
  finally have "exp (2::real) \<le> 10" by simp
  then show ?thesis by (simp add: ln_ge_iff)
qed

lemma log10_cerca_de_15:
  "15 - 1 / 2 ^ 50 < log 10 999999999999999" and "log 10 999999999999999 < 15"
proof -
  define t :: real where "t = 1 / 10 ^ 15"
  have t: "0 \<le> t" "t \<le> 1 / 2" "t < 1" by (simp_all add: t_def)
  have p: "log 10 ((10::real) ^ 15) = real 15" by (rule log_pow_cancel) simp_all
  have v: "(999999999999999::real) = 10 ^ 15 * (1 - t)" by (simp add: t_def)
  have "log 10 999999999999999 = log 10 (10 ^ 15 * (1 - t))" by (simp only: v)
  also have "\<dots> = log 10 (10 ^ 15) + log 10 (1 - t)"
    using t by (intro log_mult_pos) simp_all
  also have "\<dots> = 15 + ln (1 - t) / ln 10" unfolding p by (simp add: log_def)
  finally have l: "log 10 999999999999999 = 15 + ln (1 - t) / ln 10" .
  have lo: "- t - 2 * t\<^sup>2 \<le> ln (1 - t)" using t(1,2) by (rule ln_one_minus_pos_lower_bound)
  have "ln (1 - t) < 0" using t by (simp add: t_def)
  moreover have l10: "0 < ln (10::real)" using ln_10_ge_2 by linarith
  ultimately have "ln (1 - t) / ln 10 < 0" by (simp add: divide_neg_pos)
  with l show "log 10 999999999999999 < 15" by simp
  have "- (1 / 2 ^ 50) * 2 < - t - 2 * t\<^sup>2" by (simp add: t_def power2_eq_square)
  also have "\<dots> \<le> ln (1 - t)" by (rule lo)
  finally have a: "- (1 / 2 ^ 50) * 2 < ln (1 - t)" .
  have "- (1 / 2 ^ 50) * ln 10 \<le> - (1 / 2 ^ 50) * (2::real)"
    using ln_10_ge_2 by (intro mult_left_mono_neg) simp_all
  with a have "- (1 / 2 ^ 50) * ln 10 < ln (1 - t)" by linarith
  with l10 have "- (1 / 2 ^ 50) < ln (1 - t) / ln 10"
    by (simp add: pos_less_divide_eq)
  then have "15 - 1 / 2 ^ 50 < 15 + ln (1 - t) / ln 10" by linarith
  then show "15 - 1 / 2 ^ 50 < log 10 999999999999999" by (simp only: l)
qed


lemma nc_9: "num_cifras 9 = 1" by (simp add: num_cifras_def str_nat.simps)
lemma nc_15: "num_cifras 999999999999999 = 15" by (simp add: num_cifras_def str_nat.simps)
lemma nc_16: "num_cifras 1000001985804023 = 16" by (simp add: num_cifras_def str_nat.simps)
lemma nc_10403: "num_cifras 10403 = 5" by (simp add: num_cifras_def str_nat.simps)

lemma sufijo_numeral:
  "sufijo rnd (numeral j) = 10 * sufijo rnd (pred_numeral j) + int (rnd (pred_numeral j) mod 10)"
  by (subst numeral_eq_Suc) simp

lemma suf14: "sufijo (\<lambda>i. 9) 14 = 99999999999999"
  by (simp add: sufijo_numeral)

lemma ejemplo_15: "trunc_log10 plataforma_ejemplo 999999999999999 = 15"
  by (simp add: plataforma_ejemplo_def)

lemma ejemplo_16: "trunc_log10 plataforma_ejemplo 1000001985804023 = 15"
  by (simp add: plataforma_ejemplo_def nc_16)

text \<open>
  Claim C7 holds that the assertion of \<open>cifrar_rsa\<close> keeps the padded plaintext below the
  modulus. The assertion counts digits as \<open>int(log10(x)) + 1\<close> in floating point, and
  \<open>log10(999999999999999)\<close> is \<open>15.0\<close>: the modulus \<open>10^15 - 1\<close> counts as \<open>16\<close> digits.
  With the message \<open>9\<close> and \<open>14\<close> padding digits the digit counts are \<open>1 + 14\<close> and \<open>15\<close>,
  yet the assertion passes; when the random digits are all \<open>9\<close> the padded plaintext is
  the modulus itself, and \<open>cifrar_rsa\<close> returns the ciphertext \<open>0\<close>.
\<close>

theorem cifrar_rsa_alcanza_modulo:
  "trunc_log10 py 999999999999999 = 15 \<Longrightarrow>
     \<not> num_cifras 9 + 14 < num_cifras 999999999999999 \<and>
     aplicar_padding py 9 14 (\<lambda>i. 9) = Inr 999999999999999 \<and>
     cifrar_rsa py 9 999999999999999 3 14 (\<lambda>i. 9) = Inr 0"
proof -
  assume h: "trunc_log10 py 999999999999999 = 15"
  have 1: "\<not> num_cifras 9 + 14 < num_cifras 999999999999999" by (simp add: nc_9 nc_15)
  have ne: "\<not> excede py (nat (num_cifras 9 + 14))" by (simp add: nc_9 excede_def)
  then have 2: "aplicar_padding py 9 14 (\<lambda>i. 9) = Inr 999999999999999"
    by (simp add: aplicar_padding_value suf14)
  have a: "int_log10 py 9 = Inr 0" by (simp add: int_log10_pos nc_9)
  have b: "int_log10 py 999999999999999 = Inr 15" by (simp add: int_log10_grande h)
  have c: "potencia_mod_p 999999999999999 3 999999999999999 = Inr 0"
    by (simp add: potencia_mod_p_eq)
  have 3: "cifrar_rsa py 9 999999999999999 3 14 (\<lambda>i. 9) = Inr 0"
    by (simp add: cifrar_rsa_def a b 2 c)
  from 1 2 3 show ?thesis by simp
qed

theorem cifrar_rsa_alcanza_modulo_witness:
  "trunc_log10 plataforma_ejemplo 999999999999999 = 15 \<and>
   aplicar_padding plataforma_ejemplo 9 14 (\<lambda>i. 9) = Inr 999999999999999 \<and>
   cifrar_rsa plataforma_ejemplo 9 999999999999999 3 14 (\<lambda>i. 9) = Inr 0"
  using cifrar_rsa_alcanza_modulo [OF ejemplo_15] ejemplo_15 by blast

text \<open>
  Claim C1 holds that a message whose digit count plus the padding digits is below the
  digit count of the modulus is encrypted and decrypted back. The message \<open>10^15 - 1\<close>
  has \<open>15\<close> digits and the modulus \<open>1000001985804023 = 31622779 * 31622837\<close> has \<open>16\<close>, but
  \<open>log10(999999999999999)\<close> is \<open>15.0\<close> in floating point: the assertion of \<open>cifrar_rsa\<close>
  compares \<open>16 < 16\<close> and the call raises \<open>AssertionError\<close>, whatever the random digits
  are.
\<close>

theorem cifrar_rsa_rechaza:
  "trunc_log10 py 999999999999999 = 15 \<Longrightarrow> trunc_log10 py 1000001985804023 = 15 \<Longrightarrow>
     (1::int) \<le> 999999999999999 \<and>
     num_cifras 999999999999999 + 0 < num_cifras 1000001985804023 \<and>
     cifrar_rsa py 999999999999999 1000001985804023 5 0 rnd = Inl AssertionError"
proof -
  assume m: "trunc_log10 py 999999999999999 = 15" and n: "trunc_log10 py 1000001985804023 = 15"
  have a: "int_log10 py 999999999999999 = Inr 15" by (simp add: int_log10_grande m)
  have b: "int_log10 py 1000001985804023 = Inr 15" by (simp add: int_log10_grande n)
  have 1: "num_cifras 999999999999999 + 0 < num_cifras 1000001985804023"
    by (simp add: nc_15 nc_16)
  have 2: "cifrar_rsa py 999999999999999 1000001985804023 5 0 rnd = Inl AssertionError"
    by (simp add: cifrar_rsa_def a b)
  from 1 2 show ?thesis by simp
qed

theorem cifrar_rsa_rechaza_witness:
  "trunc_log10 plataforma_ejemplo 999999999999999 = 15 \<and>
   trunc_log10 plataforma_ejemplo 1000001985804023 = 15 \<and>
   num_cifras 999999999999999 + 0 < num_cifras 1000001985804023 \<and>
   cifrar_rsa plataforma_ejemplo 999999999999999 1000001985804023 5 0 (\<lambda>i. 7) = Inl AssertionError"
  using cifrar_rsa_rechaza [OF ejemplo_15 ejemplo_16, of "\<lambda>i. 7"] ejemplo_15 ejemplo_16 by blast

lemma cifrar_cadena_rsa_cero:
  "0 \<in> set s \<Longrightarrow> \<exists>err. cifrar_cadena_rsa py s n e k rnd = Inl err"
proof (induction s arbitrary: rnd)
  case Nil
  then show ?case by simp
next
  case (Cons ch s)
  show ?case
  proof (cases "ch = 0")
    case True
    then show ?thesis by (simp add: ord_def cifrar_rsa_cero)
  next
    case False
    with Cons.prems have "0 \<in> set s" by simp
    from Cons.IH [OF this] obtain err
      where "cifrar_cadena_rsa py s n e k (\<lambda>i. rnd (i + nat k)) = Inl err" by blast
    then show ?thesis by (simp split: sum.splits)
  qed
qed

text \<open>
  Claim C10. For the message integer \<open>0\<close> (the NUL code point), \<open>cifrar_rsa\<close> raises for
  every modulus, exponent and digit count: the non-negativity validation lets \<open>0\<close>
  through, and the assertion then evaluates \<open>log10(0)\<close>, which raises \<open>ValueError\<close>.
  Hence \<open>cifrar_cadena_rsa\<close> raises on every string that contains NUL.
\<close>

theorem cifrar_rsa_nul:
  "cifrar_rsa py 0 n e k rnd =
     Inl (ValueError (if n < 0 \<or> e < 0 \<or> k < 0 then EntradaIncorrecta else MathDomain)) \<and>
   (0 \<in> set s \<longrightarrow> (\<exists>err. cifrar_cadena_rsa py s n e k rnd = Inl err))"
  by (simp add: cifrar_rsa_cero cifrar_cadena_rsa_cero)

theorem cifrar_rsa_nul_witness:
  "cifrar_rsa plataforma_ejemplo 0 10403 7 2 (\<lambda>i. 7) = Inl (ValueError MathDomain) \<and>
   0 \<in> set [72, 0 :: nat] \<and>
   (\<exists>err. cifrar_cadena_rsa plataforma_ejemplo [72, 0] 10403 7 2 (\<lambda>i. 7) = Inl err)"
  using cifrar_rsa_nul [of plataforma_ejemplo 10403 7 2 "\<lambda>i. 7" "[72, 0]"] by simp

lemma nc_116: "num_cifras 116 = 3" by (simp add: num_cifras_def str_nat.simps)
lemma nc_100: "num_cifras 100 = 3" by (simp add: num_cifras_def str_nat.simps)

lemma test_message_eq: "test_message = [116, 101, 115, 116, 45, 109, 101, 115, 115, 97, 103, 101]"
  by (simp add: test_message_def)

section \<open>Key validation\<close>

text \<open>
  Claim C3 holds that every error during the self-test makes \<open>valid\<close> return \<open>False\<close>.
  The function only handles \<open>OverflowError\<close>: with the modulus \<open>100\<close> the assertion of
  \<open>cifrar_rsa\<close> fails on the first character of the literal, and the \<open>AssertionError\<close>
  leaves \<open>valid\<close>, whatever the random digits are.
\<close>

theorem valid_propagates_assertion: "valid py 100 3 3 10 rnd = Inl AssertionError"
proof -
  have "cifrar_rsa py (ord 116) 100 3 10 rnd = Inl AssertionError"
    by (simp add: ord_def cifrar_rsa_pos nc_116 nc_100)
  then have "cifrar_cadena_rsa py test_message 100 3 10 rnd = Inl AssertionError"
    by (simp add: test_message_eq)
  then show ?thesis by (simp add: valid_def)
qed

section \<open>Decrypting a message\<close>

lemma descifrar_cadena_rsa_Cons:
  "descifrar_cadena_rsa py (c # cs) n d k =
     (case descifrar_caracter py c n d k of
        Inl err \<Rightarrow> Inl err
      | Inr ch \<Rightarrow>
         (case descifrar_cadena_rsa py cs n d k of Inl err \<Rightarrow> Inl err | Inr s \<Rightarrow> Inr (ch # s)))"
  by (simp add: descifrar_caracter_def split: sum.splits)

lemma descifrar_cadena_rsa_first_error:
  assumes "list_all (\<lambda>c. \<exists>ch. descifrar_caracter py c n d k = Inr ch) cs1"
    and "descifrar_caracter py c n d k = Inl err"
  shows "descifrar_cadena_rsa py (cs1 @ c # cs2) n d k = Inl err"
  using assms
proof (induction cs1)
  case Nil
  then show ?case by (simp add: descifrar_cadena_rsa_Cons del: descifrar_cadena_rsa.simps)
next
  case (Cons a cs1)
  then obtain ch where "descifrar_caracter py a n d k = Inr ch" by auto
  with Cons show ?case
    by (simp add: descifrar_cadena_rsa_Cons del: descifrar_cadena_rsa.simps)
qed

lemma check_containers_corrupto:
  assumes "find_user users sid = Inr u"
    and "descifrar_cadena_rsa py clist n d k = Inl (ValueError t)"
  shows "check_containers py users n d k ((sid, date, Some clist) # rest) =
     (case check_containers py users n d k rest of
        Inl err \<Rightarrow> Inl err
      | Inr out \<Rightarrow> Inr ((username u, date, mensaje_corrupto) # out))"
  using assms by simp

lemma check_containers_propaga:
  assumes "find_user users sid = Inr u"
    and "descifrar_cadena_rsa py clist n d k = Inl err" and "\<forall>t. err \<noteq> ValueError t"
  shows "check_containers py users n d k ((sid, date, Some clist) # rest) = Inl err"
  using assms by (cases err) simp_all

lemma check_inbox_propaga:
  assumes "inbox self = Some ((sid, date, Some clist) # rest)"
    and "find_user users sid = Inr u"
    and "descifrar_cadena_rsa py clist (fst (private_key (user_key self)))
           (snd (private_key (user_key self))) k = Inl err"
    and "\<forall>t. err \<noteq> ValueError t"
  shows "check_inbox py users self k = Inl err"
  using assms(1) check_containers_propaga [OF assms(2-4)] by (simp add: check_inbox_def)

text \<open>
  Claim C2, as amended. When the decryption of one element fails, and the elements
  before it decrypt, \<open>descifrar_cadena_rsa\<close> raises that element's exception: it returns
  no text for the list. \<open>check_inbox\<close> handles a \<open>ValueError\<close> for the message as a whole,
  reporting that message as \<open>MENSAJE CORRUPTO\<close> and going on with the other messages.
  Any other exception of the decryption is not handled there: it ends the loop over the
  inbox and leaves \<open>check_inbox\<close>.
\<close>

theorem descifrar_cadena_rsa_aborts:
  "(list_all (\<lambda>c. \<exists>ch. descifrar_caracter py c n d k = Inr ch) cs1 \<and>
    descifrar_caracter py c n d k = Inl err \<longrightarrow>
      descifrar_cadena_rsa py (cs1 @ c # cs2) n d k = Inl err) \<and>
   (find_user users sid = Inr u \<and> descifrar_cadena_rsa py clist n d k = Inl (ValueError t) \<longrightarrow>
      check_containers py users n d k ((sid, date, Some clist) # rest) =
        (case check_containers py users n d k rest of
           Inl err \<Rightarrow> Inl err
         | Inr out \<Rightarrow> Inr ((username u, date, mensaje_corrupto) # out))) \<and>
   (find_user users sid = Inr u \<and> descifrar_cadena_rsa py clist n d k = Inl err' \<and>
    (\<forall>t. err' \<noteq> ValueError t) \<longrightarrow>
      check_containers py users n d k ((sid, date, Some clist) # rest) = Inl err') \<and>
   (inbox self = Some ((sid, date, Some clist) # rest) \<and> find_user users sid = Inr u \<and>
    descifrar_cadena_rsa py clist (fst (private_key (user_key self)))
      (snd (private_key (user_key self))) k = Inl err' \<and>
    (\<forall>t. err' \<noteq> ValueError t) \<longrightarrow>
      check_inbox py users self k = Inl err')"
  using descifrar_cadena_rsa_first_error [of py n d k cs1 c err cs2]
    check_containers_corrupto [of users sid u py clist n d k t date rest]
    check_containers_propaga [of users sid u py clist n d k err' date rest]
    check_inbox_propaga [of self sid date clist rest users u py k err']
  by blast

lemma pb1: "potencia_bin 9439 8743 10403 = 72"
  by (simp add: potencia_bin.simps Let_def)

lemma pb0: "potencia_bin 0 8743 10403 = 0"
  by (simp add: potencia_bin.simps Let_def)

lemma pb2: "potencia_bin 2048 3 10000000000 = 8589934592"
  by (simp add: potencia_bin.simps Let_def)

lemma nc_2_33: "num_cifras 8589934592 = 10" by (simp add: num_cifras_def str_nat.simps)

lemma dc_good: "descifrar_caracter py 9439 10403 8743 0 = Inr 72"
  by (simp add: descifrar_caracter_def descifrar_rsa_def potencia_mod_p_def pb1
      eliminar_padding_pos nc_72 chr_def)

lemma dc_bad: "descifrar_caracter py 0 10403 8743 0 = Inl (ValueError MathDomain)"
  by (simp add: descifrar_caracter_def descifrar_rsa_def potencia_mod_p_def pb0
      eliminar_padding_def int_log10_def)

lemma dc_grande: "descifrar_caracter py 2048 10000000000 3 0 = Inl OverflowError"
  by (simp add: descifrar_caracter_def descifrar_rsa_def potencia_mod_p_def pb2
      eliminar_padding_pos nc_2_33 chr_def)

lemma cadena_bad:
  "descifrar_cadena_rsa py [9439, 0] 10403 8743 0 = Inl (ValueError MathDomain)"
  by (simp add: descifrar_cadena_rsa_Cons dc_good dc_bad del: descifrar_cadena_rsa.simps)

lemma cadena_grande:
  "descifrar_cadena_rsa py [2048] 10000000000 3 0 = Inl OverflowError"
  by (simp add: descifrar_cadena_rsa_Cons dc_grande del: descifrar_cadena_rsa.simps)

lemma find_ana: "find_user [0 \<mapsto> usuario_ana, 1 \<mapsto> usuario_eva] 0 = Inr usuario_ana"
  by (simp add: find_user_def)

lemma find_eva: "find_user [0 \<mapsto> usuario_ana, 1 \<mapsto> usuario_eva] 1 = Inr usuario_eva"
  by (simp add: find_user_def)

theorem descifrar_cadena_rsa_aborts_witness:
  "list_all (\<lambda>c. \<exists>ch. descifrar_caracter plataforma_ejemplo c 10403 8743 0 = Inr ch) [9439] \<and>
   descifrar_caracter plataforma_ejemplo 0 10403 8743 0 = Inl (ValueError MathDomain) \<and>
   descifrar_cadena_rsa plataforma_ejemplo ([9439] @ 0 # [9439]) 10403 8743 0 =
     Inl (ValueError MathDomain) \<and>
   find_user [0 \<mapsto> usuario_ana, 1 \<mapsto> usuario_eva] 0 = Inr usuario_ana \<and>
   check_containers plataforma_ejemplo [0 \<mapsto> usuario_ana, 1 \<mapsto> usuario_eva] 10403 8743 0
       [(0, [], Some ([9439] @ 0 # [9439]))] =
     Inr [(username usuario_ana, [], mensaje_corrupto)] \<and>
   find_user [0 \<mapsto> usuario_ana, 1 \<mapsto> usuario_eva] 1 = Inr usuario_eva \<and>
   inbox usuario_eva = Some [(1, map of_char ''hoy'', Some [2048])] \<and>
   descifrar_cadena_rsa plataforma_ejemplo [2048] 10000000000 3 0 = Inl OverflowError \<and>
   check_containers plataforma_ejemplo [0 \<mapsto> usuario_ana, 1 \<mapsto> usuario_eva] 10000000000 3 0
       [(1, map of_char ''hoy'', Some [2048])] = Inl OverflowError \<and>
   check_inbox plataforma_ejemplo [0 \<mapsto> usuario_ana, 1 \<mapsto> usuario_eva] usuario_eva 0 =
     Inl OverflowError"
proof -
  let ?py = plataforma_ejemplo and ?us = "[0 \<mapsto> usuario_ana, 1 \<mapsto> usuario_eva]"
  have a: "list_all (\<lambda>c. \<exists>ch. descifrar_caracter ?py c 10403 8743 0 = Inr ch) [9439]"
    by (simp add: dc_good)
  have ib: "inbox usuario_eva = Some [(1, map of_char ''hoy'', Some [2048])]"
    by (simp add: usuario_eva_def)
  have k: "descifrar_cadena_rsa ?py [2048] (fst (private_key (user_key usuario_eva)))
      (snd (private_key (user_key usuario_eva))) 0 = Inl OverflowError"
    by (simp add: usuario_eva_def cadena_grande del: descifrar_cadena_rsa.simps)
  have nv: "\<forall>t. OverflowError \<noteq> ValueError t" by simp
  note r1 = descifrar_cadena_rsa_aborts [of ?py 10403 8743 0 "[9439]" 0 "ValueError MathDomain"
      "[9439]" ?us 0 usuario_ana "[9439] @ 0 # [9439]" MathDomain "[]" "[]"]
  note r2 = descifrar_cadena_rsa_aborts [of ?py 10000000000 3 0 "[]" 0 "ValueError MathDomain"
      "[]" ?us 1 usuario_eva "[2048]" MathDomain "map of_char ''hoy''" "[]" OverflowError
      usuario_eva]
  from r1 a dc_bad [of ?py] find_ana
  have 1: "descifrar_cadena_rsa ?py ([9439] @ 0 # [9439]) 10403 8743 0 = Inl (ValueError MathDomain)"
    by blast
  from r1 1 find_ana
  have 2: "check_containers ?py ?us 10403 8743 0 [(0, [], Some ([9439] @ 0 # [9439]))] =
      Inr [(username usuario_ana, [], mensaje_corrupto)]"
    by simp
  from r2 find_eva cadena_grande [of ?py] nv
  have 3: "check_containers ?py ?us 10000000000 3 0 [(1, map of_char ''hoy'', Some [2048])] =
      Inl OverflowError"
    by blast
  from r2 find_eva ib k nv
  have 4: "check_inbox ?py ?us usuario_eva 0 = Inl OverflowError"
    by blast
  from a dc_bad [of ?py] 1 find_ana 2 find_eva ib cadena_grande [of ?py] 3 4
  show ?thesis by blast
qed

text \<open>
  Claim C2 as stated fails: in the list \<open>[9439, 0]\<close> the first element decrypts to the
  character \<open>H\<close> and the second fails; \<open>descifrar_cadena_rsa\<close> raises for the whole list,
  and \<open>check_inbox\<close> reports the whole message as corrupted.
\<close>

theorem descifrar_cadena_rsa_counterexample:
  "descifrar_caracter plataforma_ejemplo 9439 10403 8743 0 = Inr 72 \<and>
   descifrar_cadena_rsa plataforma_ejemplo [9439, 0] 10403 8743 0 = Inl (ValueError MathDomain) \<and>
   check_inbox plataforma_ejemplo [0 \<mapsto> usuario_ana, 1 \<mapsto> usuario_eva] usuario_ana 0 =
     Inr (Some [(map of_char ''ana'', map of_char ''hoy'', mensaje_corrupto)])"
  by (simp add: dc_good cadena_bad find_ana check_inbox_def usuario_ana_def [symmetric]
      del: descifrar_cadena_rsa.simps)
     (simp add: usuario_ana_def cadena_bad find_user_def check_inbox_def
      del: descifrar_cadena_rsa.simps)

section \<open>The prime generator\<close>

lemma subir_spec:
  "es_primo p \<Longrightarrow> es_primo (subir out p) \<and> subir out p \<notin> set out \<and> p \<le> subir out p"
proof (induction out p rule: subir.induct)
  case (1 out p)
  show ?case
  proof (cases "p \<in> set out")
    case True
    have "es_primo (siguiente_primo p)" "p < siguiente_primo p"
      using siguiente_primo_spec by blast+
    with 1 True show ?thesis by (subst (1 2 3) subir.simps) auto
  next
    case False
    with 1 show ?thesis by (subst (1 2 3) subir.simps) simp
  qed
qed

lemma bajar_spec:
  "bajar out po = Some p \<Longrightarrow> (\<forall>q. po = Some q \<longrightarrow> es_primo q) \<Longrightarrow>
     es_primo p \<and> p \<notin> set out \<and> (\<exists>q. po = Some q \<and> p \<le> q)"
proof (induction out po rule: bajar.induct)
  case (1 out)
  then show ?case by (simp add: bajar.simps)
next
  case (2 out q)
  show ?case
  proof (cases "q \<in> set out")
    case True
    with 2(2) have b: "bajar out (anterior_primo q) = Some p" by (simp add: bajar.simps)
    have "\<forall>r. anterior_primo q = Some r \<longrightarrow> es_primo r" using anterior_primo_Some by blast
    from 2(1) [OF True b this] obtain r
      where r: "es_primo p" "p \<notin> set out" "anterior_primo q = Some r" "p \<le> r" by blast
    from anterior_primo_Some [OF r(3)] have "r < q" by simp
    with r show ?thesis by simp
  next
    case False
    with 2 show ?thesis by (simp add: bajar.simps)
  qed
qed

lemma generar_bucle_step:
  assumes "generar_bucle mn mx out (n # ns) = Inr ps"
  shows "\<exists>p. es_primo p \<and> p \<notin> set out \<and> mn \<le> p \<and> p < mx \<and>
             generar_bucle mn mx (out @ [p]) ns = Inr ps"
proof -
  let ?u = "subir out (siguiente_primo n)"
  have u: "es_primo ?u" "?u \<notin> set out"
    using subir_spec [of "siguiente_primo n" out] siguiente_primo_spec [of n] by blast+
  show ?thesis
  proof (cases "?u \<ge> mx")
    case False
    with assms have "\<not> ?u < mn" "generar_bucle mn mx (out @ [?u]) ns = Inr ps"
      by (auto simp: Let_def split: if_splits)
    with u False show ?thesis by auto
  next
    case True
    with assms obtain p where p: "bajar out (anterior_primo mx) = Some p" "\<not> p < mn"
        "generar_bucle mn mx (out @ [p]) ns = Inr ps"
      by (auto simp: Let_def split: if_splits option.splits)
    have "\<forall>q. anterior_primo mx = Some q \<longrightarrow> es_primo q" using anterior_primo_Some by blast
    from bajar_spec [OF p(1) this] obtain q
      where q: "es_primo p" "p \<notin> set out" "anterior_primo mx = Some q" "p \<le> q" by blast
    from anterior_primo_Some [OF q(3)] have "q < mx" by simp
    with p q show ?thesis by auto
  qed
qed

lemma generar_bucle_spec:
  "generar_bucle mn mx out ns = Inr ps \<Longrightarrow> primos_validos mn mx out \<Longrightarrow>
     primos_validos mn mx ps \<and> length ps = length out + length ns"
proof (induction ns arbitrary: out)
  case Nil
  then show ?case by simp
next
  case (Cons n ns)
  from generar_bucle_step [OF Cons.prems(1)] obtain p
    where p: "es_primo p" "p \<notin> set out" "mn \<le> p" "p < mx"
      "generar_bucle mn mx (out @ [p]) ns = Inr ps" by blast
  with Cons.prems(2) have "primos_validos mn mx (out @ [p])"
    by (simp add: primos_validos_def)
  from Cons.IH [OF p(5) this] show ?case by simp
qed

lemma generar_bucle_error:
  "generar_bucle mn mx out ns = Inl err \<Longrightarrow> err = ValueError NoExistenPrimos"
  by (induction ns arbitrary: out) (auto simp: Let_def split: if_splits option.splits)

lemma generar_numeros_primos_Inr:
  assumes "generar_numeros_primos mn mx k rnd = Inr ps"
  shows "primos_validos mn mx ps \<and> int (length ps) = k"
proof -
  from assms have k: "1 \<le> k" and
    b: "generar_bucle mn mx [] (map (\<lambda>i. randint (mn - 1) mx (rnd i)) [0..<nat k]) = Inr ps"
    by (auto simp: generar_numeros_primos_def split: if_splits)
  have "primos_validos mn mx []" by (simp add: primos_validos_def)
  from generar_bucle_spec [OF b this] k show ?thesis by simp
qed

lemma pocos_primos:
  assumes "primos_validos mn mx ps"
  shows "length ps \<le> card {p. es_primo p \<and> mn \<le> p \<and> p < mx}"
proof -
  have fin: "finite {p. es_primo p \<and> mn \<le> p \<and> p < mx}"
    by (rule finite_subset [of _ "{mn..<mx}"]) auto
  from assms have "set ps \<subseteq> {p. es_primo p \<and> mn \<le> p \<and> p < mx}"
    by (auto simp: primos_validos_def list_all_iff)
  then have "card (set ps) \<le> card {p. es_primo p \<and> mn \<le> p \<and> p < mx}"
    using fin by (rule card_mono [rotated])
  moreover from assms have "card (set ps) = length ps"
    by (simp add: primos_validos_def distinct_card)
  ultimately show ?thesis by simp
qed

text \<open>
  Claim C5. Whenever \<open>generar_numeros_primos mn mx k\<close> returns, it returns exactly \<open>k\<close>
  pairwise distinct primes, each in \<open>[mn, mx)\<close>. It raises the range error if \<open>k < 1\<close>,
  if \<open>mn > mx\<close>, and whenever the interval holds fewer than \<open>k\<close> primes (the upward search
  reached \<open>mx\<close> and the downward search found no prime left at or above \<open>mn\<close>).
\<close>

theorem generar_numeros_primos_spec:
  "(\<forall>ps. generar_numeros_primos mn mx k rnd = Inr ps \<longrightarrow>
      int (length ps) = k \<and> distinct ps \<and> (\<forall>p \<in> set ps. es_primo p \<and> mn \<le> p \<and> p < mx)) \<and>
   (k < 1 \<longrightarrow> generar_numeros_primos mn mx k rnd = Inl (ValueError NumeroPrimos)) \<and>
   (1 \<le> k \<and> mx < mn \<longrightarrow> generar_numeros_primos mn mx k rnd = Inl (ValueError MinMayorMax)) \<and>
   (1 \<le> k \<and> mn \<le> mx \<and> int (card {p. es_primo p \<and> mn \<le> p \<and> p < mx}) < k \<longrightarrow>
      generar_numeros_primos mn mx k rnd = Inl (ValueError NoExistenPrimos))"
proof (intro conjI allI impI)
  fix ps assume "generar_numeros_primos mn mx k rnd = Inr ps"
  from generar_numeros_primos_Inr [OF this]
  show "int (length ps) = k" "distinct ps" "\<forall>p \<in> set ps. es_primo p \<and> mn \<le> p \<and> p < mx"
    by (simp_all add: primos_validos_def list_all_iff)
next
  assume "k < 1"
  then show "generar_numeros_primos mn mx k rnd = Inl (ValueError NumeroPrimos)"
    by (simp add: generar_numeros_primos_def)
next
  assume "1 \<le> k \<and> mx < mn"
  then show "generar_numeros_primos mn mx k rnd = Inl (ValueError MinMayorMax)"
    by (simp add: generar_numeros_primos_def)
next
  assume h: "1 \<le> k \<and> mn \<le> mx \<and> int (card {p. es_primo p \<and> mn \<le> p \<and> p < mx}) < k"
  show "generar_numeros_primos mn mx k rnd = Inl (ValueError NoExistenPrimos)"
  proof (cases "generar_numeros_primos mn mx k rnd")
    case (Inr ps)
    from generar_numeros_primos_Inr [OF this] pocos_primos [of mn mx ps] h
    show ?thesis by simp
  next
    case (Inl err)
    with h have "generar_bucle mn mx []
        (map (\<lambda>i. randint (mn - 1) mx (rnd i)) [0..<nat k]) = Inl err"
      by (simp add: generar_numeros_primos_def)
    from generar_bucle_error [OF this] Inl show ?thesis by simp
  qed
qed

lemmas primos_eval = generar_numeros_primos_def randint_def siguiente_primo_def
  siguiente_primo_desde.simps subir.simps bajar.simps anterior_primo_def
  anterior_primo_desde.simps es_primo_def Let_def

lemma gnp_ok: "generar_numeros_primos 2 4 2 (\<lambda>i. 2) = Inr [3, 2]"
  by (simp add: primos_eval numeral_2_eq_2)

lemma gnp_vacio: "{p. es_primo p \<and> 5 \<le> p \<and> p < (5::int)} = {}"
  by auto

theorem generar_numeros_primos_spec_witness:
  "generar_numeros_primos 2 4 2 (\<lambda>i. 2) = Inr [3, 2] \<and>
   int (length [3, 2 :: int]) = 2 \<and> distinct [3, 2 :: int] \<and>
   es_primo 3 \<and> (2::int) \<le> 3 \<and> (3::int) < 4 \<and> es_primo 2 \<and> (2::int) \<le> 2 \<and> (2::int) < 4 \<and>
   generar_numeros_primos 2 4 0 (\<lambda>i. 2) = Inl (ValueError NumeroPrimos) \<and>
   generar_numeros_primos 4 2 1 (\<lambda>i. 2) = Inl (ValueError MinMayorMax) \<and>
   int (card {p. es_primo p \<and> 5 \<le> p \<and> p < (5::int)}) < 1 \<and>
   generar_numeros_primos 5 5 1 (\<lambda>i. 2) = Inl (ValueError NoExistenPrimos)"
proof -
  note a = generar_numeros_primos_spec [of 2 4 2 "\<lambda>i. 2"]
  note b = generar_numeros_primos_spec [of 2 4 0 "\<lambda>i. 2"]
  note c = generar_numeros_primos_spec [of 4 2 1 "\<lambda>i. 2"]
  note d = generar_numeros_primos_spec [of 5 5 1 "\<lambda>i. 2"]
  have "int (length [3, 2 :: int]) = 2 \<and> distinct [3, 2 :: int] \<and>
      (\<forall>p \<in> set [3, 2]. es_primo p \<and> 2 \<le> p \<and> p < 4)"
    using a gnp_ok by blast
  then have 1: "int (length [3, 2 :: int]) = 2 \<and> distinct [3, 2 :: int] \<and>
      es_primo 3 \<and> (2::int) \<le> 3 \<and> (3::int) < 4 \<and> es_primo 2 \<and> (2::int) \<le> 2 \<and> (2::int) < 4"
    by simp
  have 2: "generar_numeros_primos 2 4 0 (\<lambda>i. 2) = Inl (ValueError NumeroPrimos)"
    using b by simp
  have 3: "generar_numeros_primos 4 2 1 (\<lambda>i. 2) = Inl (ValueError MinMayorMax)"
    using c by simp
  have 4: "int (card {p. es_primo p \<and> 5 \<le> p \<and> p < (5::int)}) < 1"
    by (simp add: gnp_vacio)
  have 5: "generar_numeros_primos 5 5 1 (\<lambda>i. 2) = Inl (ValueError NoExistenPrimos)"
    using d 4 by simp
  from gnp_ok 1 2 3 4 5 show ?thesis by blast
qed

section \<open>The key generator\<close>

lemma mcd_gcd: "mcd a b = gcd a b"
proof (induction a b rule: mcd.induct)
  case (1 a b)
  show ?case
  proof (cases "b = 0")
    case True
    then show ?thesis by (subst mcd.simps) simp
  next
    case False
    with 1 have "mcd b (a mod b) = gcd b (a mod b)" by simp
    also have "\<dots> = gcd a b" by (metis gcd.commute gcd_red_int)
    finally show ?thesis using False by (subst mcd.simps) simp
  qed
qed

lemma coprimos_gcd: "coprimos a b \<longleftrightarrow> gcd a b = 1"
  by (simp add: coprimos_def mcd_gcd)

lemma euclides_ext_bezout:
  "euclides_ext a b = (g, x, y) \<Longrightarrow> a * x + b * y = g"
proof (induction a b arbitrary: g x y rule: euclides_ext.induct)
  case (1 a b)
  show ?case
  proof (cases "b = 0")
    case True
    with "1.prems" show ?thesis by (subst (asm) euclides_ext.simps) simp
  next
    case False
    obtain g' x' y' where r: "euclides_ext b (a mod b) = (g', x', y')"
      by (cases "euclides_ext b (a mod b)") auto
    from "1.IH" [OF False r] have ih: "b * x' + (a mod b) * y' = g'" .
    from "1.prems" False r have e: "g = g'" "x = y'" "y = x' - (a div b) * y'"
      by (subst (asm) euclides_ext.simps, simp)+
    have "a mod b = a - b * (a div b)" by (simp add: minus_mult_div_eq_mod)
    with ih have ih': "b * x' + (a - b * (a div b)) * y' = g'" by simp
    have "a * x + b * y = a * y' + b * (x' - (a div b) * y')" by (simp add: e)
    also have "\<dots> = b * x' + (a - b * (a div b)) * y'" by (simp add: algebra_simps)
    also have "\<dots> = g" using ih' e by simp
    finally show ?thesis .
  qed
qed

lemma euclides_ext_gcd:
  "0 \<le> a \<Longrightarrow> 0 \<le> b \<Longrightarrow> fst (euclides_ext a b) = gcd a b"
proof (induction a b rule: euclides_ext.induct)
  case (1 a b)
  show ?case
  proof (cases "b = 0")
    case True
    with "1.prems" show ?thesis by (subst euclides_ext.simps) simp
  next
    case False
    with "1.prems" have "0 \<le> a mod b" by simp
    with 1 False have "fst (euclides_ext b (a mod b)) = gcd b (a mod b)" by simp
    also have "\<dots> = gcd a b" by (metis gcd.commute gcd_red_int)
    finally show ?thesis using False
      by (subst euclides_ext.simps) (simp add: case_prod_beta)
  qed
qed

lemma euclides_ext_gcd_pos:
  assumes "0 < p"
  shows "fst (euclides_ext a p) = gcd a p"
proof -
  have "0 \<le> a mod p" using assms by simp
  with assms have "fst (euclides_ext p (a mod p)) = gcd p (a mod p)"
    by (intro euclides_ext_gcd) simp_all
  also have "\<dots> = gcd a p" by (metis gcd.commute gcd_red_int)
  finally show ?thesis using assms
    by (subst euclides_ext.simps) (simp add: case_prod_beta)
qed

lemma inversa_mod_p_Inr:
  assumes "0 < p" "inversa_mod_p a p = Inr d"
  shows "0 \<le> d \<and> d < p \<and> a * d mod p = 1 mod p \<and> gcd a p = 1"
proof -
  obtain g x y where r: "euclides_ext a p = (g, x, y)" by (cases "euclides_ext a p") auto
  from assms r euclides_ext_gcd_pos [OF assms(1), of a]
  have g: "gcd a p = 1" "g = 1" and d: "d = x mod p"
    by (auto simp: inversa_mod_p_def split: if_splits)
  from euclides_ext_bezout [OF r] g have "a * x + p * y = 1" by simp
  then have "(a * x + p * y) mod p = 1 mod p" by simp
  then have "a * x mod p = 1 mod p" by simp
  then have "a * (x mod p) mod p = 1 mod p" by (simp add: mod_mult_right_eq)
  with d g assms(1) show ?thesis by simp
qed

lemma inversa_mod_p_coprimo:
  assumes "0 < p" "gcd a p = 1"
  shows "\<exists>d. inversa_mod_p a p = Inr d"
  using assms euclides_ext_gcd_pos [OF assms(1), of a]
  by (auto simp: inversa_mod_p_def split: prod.splits)

lemma randrange_impar:
  assumes "randrange 1 phi 2 r = Inr e"
  shows "odd e \<and> 1 \<le> e \<and> e < phi"
proof -
  let ?w = "phi div 2"
  from assms have w: "0 < ?w" and e: "e = 1 + 2 * (int r mod ?w)"
    by (auto simp: randrange_def Let_def split: if_splits)
  from w have "0 \<le> int r mod ?w" "int r mod ?w < ?w" by simp_all
  moreover have "2 * ?w \<le> phi" by simp
  ultimately show ?thesis unfolding e by simp
qed

lemma elegir_e_Some:
  "elegir_e phi rs = Some (Inr e) \<Longrightarrow> odd e \<and> 1 \<le> e \<and> e < phi \<and> coprimos phi e"
proof (induction rs)
  case Nil
  then show ?case by simp
next
  case (Cons r rs)
  show ?case
  proof (cases "randrange 1 phi 2 r")
    case (Inl err)
    with Cons.prems show ?thesis by simp
  next
    case (Inr e')
    show ?thesis
    proof (cases "coprimos phi e'")
      case True
      with Cons.prems Inr have "e = e'" by simp
      with True randrange_impar [OF Inr] show ?thesis by simp
    next
      case False
      with Cons Inr show ?thesis by simp
    qed
  qed
qed

lemma phi_ge2:
  assumes "es_primo p" "es_primo q" "p \<noteq> q"
  shows "2 \<le> (p - 1) * (q - 1)"
proof -
  from assms have "2 \<le> p" "2 \<le> q" by (simp_all add: es_primo_ge2)
  with assms(3) consider "1 \<le> p - 1" "2 \<le> q - 1" | "2 \<le> p - 1" "1 \<le> q - 1" by linarith
  then show ?thesis
  proof cases
    case 1
    then have "1 * 2 \<le> (p - 1) * (q - 1)" by (intro mult_mono) simp_all
    then show ?thesis by simp
  next
    case 2
    then have "2 * 1 \<le> (p - 1) * (q - 1)" by (intro mult_mono) simp_all
    then show ?thesis by simp
  qed
qed

lemma generar_claves_es_clave:
  assumes "generar_claves mn mx rnd rs = Some (Inr (n, e, d))"
  shows "\<exists>p q. es_clave p q n e d \<and> mn \<le> p \<and> p < mx \<and> mn \<le> q \<and> q < mx"
proof -
  from assms obtain ps where ps: "generar_numeros_primos mn mx 2 rnd = Inr ps"
    by (auto simp: generar_claves_def split: sum.splits)
  from generar_numeros_primos_Inr [OF ps] have v: "primos_validos mn mx ps" "length ps = 2"
    by simp_all
  then obtain p q where pq: "ps = [p, q]"
    by (cases ps; cases "tl ps") auto
  from v pq have pr: "es_primo p" "es_primo q" "p \<noteq> q" "mn \<le> p" "p < mx" "mn \<le> q" "q < mx"
    by (auto simp: primos_validos_def)
  let ?phi = "(p - 1) * (q - 1)"
  have phi: "2 \<le> ?phi" using pr by (intro phi_ge2)
  from assms ps pq have el: "elegir_e ?phi rs = Some (Inr e)"
    and inv: "inversa_mod_p e ?phi = Inr d" and n: "n = p * q"
    by (auto simp: generar_claves_def Let_def split: sum.splits option.splits)
  from inversa_mod_p_Inr [OF _ inv] phi
  have "0 \<le> d" "d < ?phi" "e * d mod ?phi = 1" by simp_all
  with elegir_e_Some [OF el] pr n have "es_clave p q n e d"
    by (simp add: es_clave_def)
  with pr show ?thesis by blast
qed

text \<open>
  Claim C8. Every triple \<open>(n, e, d)\<close> returned by \<open>generar_claves mn mx\<close> satisfies the
  keypair invariant: \<open>n = p*q\<close> for two distinct primes of \<open>[mn, mx)\<close>, \<open>e\<close> is odd, lies
  in \<open>[1, phi)\<close> and is coprime with \<open>phi = (p-1)*(q-1)\<close>, and \<open>e*d \<equiv> 1 (mod phi)\<close> with
  \<open>d\<close> in \<open>[0, phi)\<close>.
\<close>

theorem generar_claves_spec:
  "generar_claves mn mx rnd rs = Some (Inr (n, e, d)) \<Longrightarrow>
     \<exists>p q. es_primo p \<and> es_primo q \<and> p \<noteq> q \<and>
           mn \<le> p \<and> p < mx \<and> mn \<le> q \<and> q < mx \<and> n = p * q \<and>
           odd e \<and> 1 \<le> e \<and> e < (p - 1) * (q - 1) \<and> gcd ((p - 1) * (q - 1)) e = 1 \<and>
           0 \<le> d \<and> d < (p - 1) * (q - 1) \<and> e * d mod ((p - 1) * (q - 1)) = 1"
proof -
  assume "generar_claves mn mx rnd rs = Some (Inr (n, e, d))"
  from generar_claves_es_clave [OF this] obtain p q
    where "es_clave p q n e d" "mn \<le> p" "p < mx" "mn \<le> q" "q < mx" by blast
  then show ?thesis
    by (intro exI [of _ p] exI [of _ q]) (simp add: es_clave_def Let_def coprimos_gcd)
qed

lemmas claves_eval = generar_claves_def primos_eval randrange_def coprimos_def mcd.simps
  inversa_mod_p_def euclides_ext.simps

lemma primos_100_110: "generar_numeros_primos 100 110 2 Suc = Inr [101, 103]"
  by (simp add: primos_eval numeral_2_eq_2)

lemma elegir_7: "elegir_e 10200 [3] = Some (Inr 7)"
  by (simp add: randrange_def coprimos_def mcd.simps)

lemma inversa_7: "inversa_mod_p 7 10200 = Inr 8743"
  by (simp add: inversa_mod_p_def euclides_ext.simps)

lemma claves_100_110: "generar_claves 100 110 Suc [3] = Some (Inr (10403, 7, 8743))"
  by (simp add: generar_claves_def primos_100_110 elegir_7 inversa_7 del: elegir_e.simps)

theorem generar_claves_spec_witness:
  "generar_claves 100 110 Suc [3] = Some (Inr (10403, 7, 8743)) \<and>
   (\<exists>p q. es_primo p \<and> es_primo q \<and> p \<noteq> q \<and>
          100 \<le> p \<and> p < 110 \<and> 100 \<le> q \<and> q < 110 \<and> 10403 = p * q \<and>
          odd (7::int) \<and> 1 \<le> (7::int) \<and> 7 < (p - 1) * (q - 1) \<and> gcd ((p - 1) * (q - 1)) 7 = 1 \<and>
          0 \<le> (8743::int) \<and> 8743 < (p - 1) * (q - 1) \<and> 7 * 8743 mod ((p - 1) * (q - 1)) = 1)"
  using generar_claves_spec [OF claves_100_110] claves_100_110 by blast

section \<open>Key recovery\<close>

text \<open>
  Euclid's lemma for \<open>es_primo\<close>, the least factor of a product of two primes, and the
  uniqueness of the inverse in \<open>[0, phi)\<close>.
\<close>

lemma es_primo_coprime:
  assumes "es_primo p" "\<not> p dvd a"
  shows "coprime p a"
proof -
  have "gcd p a dvd p" "0 \<le> gcd p a" by simp_all
  with es_primo_divisor [OF assms(1)] have "gcd p a = 1 \<or> gcd p a = p" by blast
  moreover have "gcd p a \<noteq> p" using assms(2) by (metis gcd_dvd2)
  ultimately show ?thesis by (simp add: coprime_iff_gcd_eq_1)
qed

lemma es_primo_dvd_mult:
  assumes "es_primo p" "p dvd a * b"
  shows "p dvd a \<or> p dvd b"
proof (cases "p dvd a")
  case True
  then show ?thesis by simp
next
  case False
  with assms(1) have "coprime p a" by (rule es_primo_coprime)
  with assms(2) show ?thesis by (simp add: coprime_dvd_mult_right_iff)
qed

lemma es_primo_dvd_primo:
  assumes "es_primo s" "es_primo p" "s dvd p"
  shows "s = p"
  using es_primo_divisor [OF assms(2,3)] es_primo_ge2 [OF assms(1)] by auto

lemma menor_factor_spec:
  "2 \<le> d \<Longrightarrow> d \<le> n \<Longrightarrow>
     d \<le> menor_factor n d \<and> menor_factor n d \<le> n \<and> menor_factor n d dvd n \<and>
     (\<forall>k. d \<le> k \<and> k < menor_factor n d \<longrightarrow> \<not> k dvd n)"
proof (induction n d rule: menor_factor.induct)
  case (1 n d)
  show ?case
  proof (cases "d < n \<and> n mod d \<noteq> 0")
    case True
    with 1 have ih: "d + 1 \<le> menor_factor n (d + 1) \<and> menor_factor n (d + 1) \<le> n \<and>
        menor_factor n (d + 1) dvd n \<and>
        (\<forall>k. d + 1 \<le> k \<and> k < menor_factor n (d + 1) \<longrightarrow> \<not> k dvd n)"
      by simp
    have eq: "menor_factor n d = menor_factor n (d + 1)"
      using True by (subst menor_factor.simps) simp
    have "\<not> d dvd n" using True by (simp add: dvd_eq_mod_eq_0)
    with ih show ?thesis unfolding eq
      by (metis add.commute add_le_cancel_left le_less not_le zle_add1_eq_le dual_order.trans
          less_imp_le zless_imp_add1_zle)
  next
    case False
    then have eq: "menor_factor n d = d" by (subst menor_factor.simps) auto
    from False "1.prems" have "d dvd n" by (cases "d = n") (auto simp: dvd_eq_mod_eq_0)
    with "1.prems" show ?thesis unfolding eq by auto
  qed
qed

lemma menor_factor_producto:
  assumes "es_primo p" "es_primo q" "p < q"
  shows "menor_factor (p * q) 2 = p"
proof -
  let ?n = "p * q" and ?r = "menor_factor (p * q) 2"
  have p2: "2 \<le> p" and q2: "2 \<le> q" using assms by (simp_all add: es_primo_ge2)
  then have "2 * 2 \<le> ?n" by (intro mult_mono) simp_all
  then have n: "2 \<le> ?n" by simp
  from menor_factor_spec [OF _ n] have r: "2 \<le> ?r" "?r dvd ?n"
    and least: "\<And>k. 2 \<le> k \<Longrightarrow> k < ?r \<Longrightarrow> \<not> k dvd ?n" by simp_all
  have "?r \<le> p" using least [of p] p2 by (meson dvd_triv_left not_le)
  moreover have "\<not> ?r < p"
  proof
    assume lt: "?r < p"
    from factor_primo [OF r(1)] obtain s where s: "es_primo s" "s dvd ?r" by blast
    with r(1) have "s \<le> ?r" by (intro zdvd_imp_le) simp_all
    from s(2) r(2) have "s dvd p * q" by (rule dvd_trans)
    with s(1) have "s dvd p \<or> s dvd q" by (rule es_primo_dvd_mult)
    with s(1) assms have "s = p \<or> s = q" using es_primo_dvd_primo by blast
    with \<open>s \<le> ?r\<close> lt assms(3) show False by auto
  qed
  ultimately show ?thesis by simp
qed

lemma euler_producto:
  assumes "es_primo p" "es_primo q" "p \<noteq> q"
  shows "euler (p * q) = (p - 1) * (q - 1)"
proof (cases "p < q")
  case True
  from menor_factor_producto [OF assms(1,2) True] es_primo_ge2 [OF assms(1)]
  show ?thesis by (simp add: euler_def)
next
  case False
  with assms(3) have "q < p" by simp
  from menor_factor_producto [OF assms(2,1) this] es_primo_ge2 [OF assms(2)]
  show ?thesis by (simp add: euler_def mult.commute)
qed

lemma romper_clave_es_clave:
  assumes "es_clave p q n e d" "1 < e"
  shows "romper_clave n e = Inr (fst (snd (euclides_ext e ((p - 1) * (q - 1)))) mod ((p - 1) * (q - 1)))"
proof -
  let ?phi = "(p - 1) * (q - 1)"
  from assms(1) have k: "es_primo p" "es_primo q" "p \<noteq> q" "n = p * q" "e < ?phi"
    "coprimos ?phi e"
    by (simp_all add: es_clave_def Let_def)
  have phi: "euler n = ?phi" using k by (simp add: euler_producto)
  have pos: "0 < ?phi" using phi_ge2 [OF k(1,2,3)] by simp
  have "gcd e ?phi = 1" using k(6) by (simp add: coprimos_gcd gcd.commute)
  with euclides_ext_gcd_pos [OF pos, of e] pos
  have "inversa_mod_p e ?phi = Inr (fst (snd (euclides_ext e ?phi)) mod ?phi)"
    by (simp add: inversa_mod_p_def case_prod_beta)
  with assms(2) k phi show ?thesis by (simp add: romper_clave_def Let_def)
qed

lemma inversa_unica:
  assumes p: "0 < p" and d: "0 \<le> d" "d < p" and d': "0 \<le> d'" "d' < p"
    and i: "a * d mod p = 1 mod p" and i': "a * d' mod p = 1 mod p"
  shows "d = (d'::int)"
proof -
  have "d * (a * d') mod p = d * 1 mod p"
    using i' by (intro mod_mult_cong) simp_all
  moreover have "a * d * d' mod p = 1 * d' mod p"
    using i by (intro mod_mult_cong) simp_all
  moreover have "d * (a * d') = a * d * d'" by simp
  ultimately have "d mod p = d' mod p" by simp
  with d d' show ?thesis by simp
qed

lemma romper_clave_clave:
  assumes k: "es_clave p q n e d" and e: "1 < e"
  shows "romper_clave n e = Inr d"
proof -
  let ?phi = "(p - 1) * (q - 1)"
  from k have pq: "es_primo p" "es_primo q" "p \<noteq> q"
    and d: "0 \<le> d" "d < ?phi" "e * d mod ?phi = 1"
    by (simp_all add: es_clave_def Let_def)
  have phi: "2 \<le> ?phi" using pq by (rule phi_ge2)
  then have pos: "0 < ?phi" by simp
  let ?d' = "fst (snd (euclides_ext e ?phi)) mod ?phi"
  have r: "romper_clave n e = Inr ?d'" using k e by (rule romper_clave_es_clave)
  with k e have "inversa_mod_p e ?phi = Inr ?d'"
    using euler_producto [OF pq]
    by (simp add: romper_clave_def es_clave_def Let_def split: if_splits)
  from inversa_mod_p_Inr [OF pos this]
  have d': "0 \<le> ?d'" "?d' < ?phi" "e * ?d' mod ?phi = 1 mod ?phi" by simp_all
  have "d = ?d'" using pos d(1,2) d'(1,2) _ d'(3)
    by (rule inversa_unica) (use d(3) phi in simp)
  with r show ?thesis by simp
qed

lemma romper_clave_assert:
  assumes "\<not> (1 < e \<and> e < euler n) \<or> \<not> coprimos (euler n) e"
  shows "romper_clave n e = Inl AssertionError"
  using assms by (auto simp: romper_clave_def Let_def)

text \<open>
  Claim C4. For every triple \<open>(n, e, d)\<close> returned by \<open>generar_claves\<close> with \<open>1 < e\<close>,
  \<open>romper_clave n e\<close> returns \<open>d\<close>. For every \<open>n\<close> and \<open>e\<close>, \<open>romper_clave n e\<close> raises
  \<open>AssertionError\<close> whenever \<open>e\<close> is not strictly between \<open>1\<close> and \<open>euler n\<close> or is not coprime
  with \<open>euler n\<close>.
\<close>

theorem romper_clave_spec:
  "(\<forall>mn mx rnd rs d. generar_claves mn mx rnd rs = Some (Inr (n, e, d)) \<and> 1 < e \<longrightarrow>
      romper_clave n e = Inr d) \<and>
   (\<not> (1 < e \<and> e < euler n) \<or> \<not> coprimos (euler n) e \<longrightarrow>
      romper_clave n e = Inl AssertionError)"
proof (intro conjI allI impI)
  fix mn mx rnd rs d
  assume a: "generar_claves mn mx rnd rs = Some (Inr (n, e, d)) \<and> 1 < e"
  then obtain p q where "es_clave p q n e d" using generar_claves_es_clave by blast
  with a show "romper_clave n e = Inr d" by (simp add: romper_clave_clave)
next
  assume "\<not> (1 < e \<and> e < euler n) \<or> \<not> coprimos (euler n) e"
  then show "romper_clave n e = Inl AssertionError" by (rule romper_clave_assert)
qed

lemma es_primo_101: "es_primo 101"
  by (simp add: es_primo_def)

lemma es_primo_103: "es_primo 103"
  by (simp add: es_primo_def)

lemma euler_10403: "euler 10403 = 10200"
  using euler_producto [OF es_primo_101 es_primo_103] by simp

lemma no_coprimos_3: "\<not> coprimos 10200 3"
  by (simp add: coprimos_def mcd.simps)

theorem romper_clave_spec_witness:
  "generar_claves 100 110 Suc [3] = Some (Inr (10403, 7, 8743)) \<and> (1::int) < 7 \<and>
   romper_clave 10403 7 = Inr 8743 \<and>
   romper_clave 10403 1 = Inl AssertionError \<and>
   romper_clave 10403 10200 = Inl AssertionError \<and>
   romper_clave 10403 3 = Inl AssertionError"
proof -
  from romper_clave_spec [of 10403 7]
  have "generar_claves 100 110 Suc [3] = Some (Inr (10403, 7, 8743)) \<and> (1::int) < 7 \<longrightarrow>
      romper_clave 10403 7 = Inr 8743"
    by blast
  with claves_100_110 have 1: "romper_clave 10403 7 = Inr 8743" by simp
  have 2: "romper_clave 10403 1 = Inl AssertionError"
    using romper_clave_spec [of 10403 1] by simp
  have 3: "romper_clave 10403 10200 = Inl AssertionError"
    using romper_clave_spec [of 10403 10200] by (simp add: euler_10403)
  have 4: "romper_clave 10403 3 = Inl AssertionError"
    using romper_clave_spec [of 10403 3] by (simp add: euler_10403 no_coprimos_3)
  from 1 2 3 4 claves_100_110 show ?thesis by simp
qed


section \<open>The round trip of the message codec\<close>

text \<open>
  Fermat's little theorem for \<open>es_primo\<close>, by induction on the base with the binomial
  theorem, and from it the correctness of RSA for a modulus of two distinct primes: it
  holds for every residue, coprime with the modulus or not. With a modulus below \<open>10^13\<close>,
  where the digit counts of the code are exact, encryption followed by decryption gives
  the message back.
\<close>

lemma primo_dvd_binomial:
  assumes "es_primo (int p)" "0 < k" "k < p"
  shows "p dvd (p choose k)"
proof -
  have "k * (p choose k) = p * ((p - 1) choose (k - 1))"
    using assms(2) by (rule times_binomial_minus1_eq)
  then have "int p dvd int k * int (p choose k)"
    by (metis dvd_triv_left of_nat_mult)
  with assms(1) have "int p dvd int k \<or> int p dvd int (p choose k)"
    by (rule es_primo_dvd_mult)
  moreover have "\<not> int p dvd int k"
    using assms(2,3) by (simp add: of_nat_dvd_iff nat_dvd_not_less)
  ultimately show ?thesis by (simp add: of_nat_dvd_iff)
qed

lemma fermat_nat:
  assumes "es_primo (int p)"
  shows "a ^ p mod p = a mod p"
proof (induction a)
  case 0
  from es_primo_ge2 [OF assms] have "0 < p" by simp
  then show ?case by (simp add: power_0_left)
next
  case (Suc a)
  from es_primo_ge2 [OF assms] obtain m where p: "p = Suc m" by (cases p) simp_all
  let ?f = "\<lambda>k. (p choose k) * a ^ k"
  have "(a + 1) ^ p = (\<Sum>k\<le>p. of_nat (p choose k) * a ^ k * 1 ^ (p - k))"
    by (rule binomial_ring)
  also have "\<dots> = (\<Sum>k\<le>Suc m. ?f k)" by (simp add: p)
  also have "\<dots> = ?f 0 + (\<Sum>i\<le>m. ?f (Suc i))" by (rule sum.atMost_Suc_shift)
  also have "(\<Sum>i\<le>m. ?f (Suc i)) = (\<Sum>i<m. ?f (Suc i)) + ?f (Suc m)"
    by (simp add: lessThan_Suc_atMost [symmetric])
  finally have eq: "(a + 1) ^ p = 1 + (\<Sum>i<m. ?f (Suc i)) + a ^ p"
    by (simp add: p)
  have "p dvd (\<Sum>i<m. ?f (Suc i))"
  proof (rule dvd_sum)
    fix i assume "i \<in> {..<m}"
    then have "0 < Suc i" "Suc i < p" by (simp_all add: p)
    with assms have "p dvd (p choose Suc i)" by (intro primo_dvd_binomial)
    then show "p dvd ?f (Suc i)" by (rule dvd_mult2)
  qed
  then obtain c where c: "(\<Sum>i<m. ?f (Suc i)) = p * c" by (auto simp: dvd_def)
  from eq c have eq': "(a + 1) ^ p = 1 + a ^ p + p * c" by simp
  have "(a + 1) ^ p mod p = (1 + a ^ p + p * c) mod p" by (simp only: eq')
  also have "\<dots> = (1 + a ^ p) mod p" by simp
  also have "\<dots> = (1 + a ^ p mod p) mod p" by (simp only: mod_add_right_eq)
  also have "\<dots> = (1 + a mod p) mod p" by (simp only: Suc.IH)
  also have "\<dots> = (1 + a) mod p" by (simp only: mod_add_right_eq)
  finally show ?case by simp
qed

lemma fermat_int:
  assumes "es_primo p" "0 \<le> x"
  shows "x ^ nat p mod p = x mod p"
proof -
  from assms es_primo_ge2 [OF assms(1)] obtain p' a where pa: "p = int p'" "x = int a"
    by (metis nat_0_le order_trans zero_le_numeral)
  from assms(1) have "a ^ p' mod p' = a mod p'" unfolding pa by (rule fermat_nat)
  then have "int (a ^ p' mod p') = int (a mod p')" by simp
  then show ?thesis by (simp add: pa zmod_int)
qed

lemma fermat_multiplo:
  assumes "es_primo p" "0 \<le> x"
  shows "x ^ (1 + j * nat (p - 1)) mod p = x mod p"
proof (induction j)
  case 0
  show ?case by simp
next
  case (Suc j)
  let ?m = "nat (p - 1)"
  have m: "Suc ?m = nat p" using es_primo_ge2 [OF assms(1)] by simp
  have "1 + Suc j * ?m = (1 + j * ?m) + ?m" by simp
  then have "x ^ (1 + Suc j * ?m) = x ^ (1 + j * ?m) * x ^ ?m"
    by (simp only: power_add)
  then have "x ^ (1 + Suc j * ?m) mod p = x ^ (1 + j * ?m) * x ^ ?m mod p"
    by (rule arg_cong)
  also have "\<dots> = (x ^ (1 + j * ?m) mod p) * x ^ ?m mod p"
    by (simp only: mod_mult_left_eq)
  also have "\<dots> = (x mod p) * x ^ ?m mod p" by (simp only: Suc.IH)
  also have "\<dots> = x * x ^ ?m mod p" by (simp only: mod_mult_left_eq)
  also have "\<dots> = x ^ Suc ?m mod p" by (simp only: power_Suc)
  also have "\<dots> = x mod p" unfolding m using assms by (rule fermat_int)
  finally show ?case .
qed

lemma rsa_mod_producto:
  assumes p: "es_primo p" and q: "es_primo q" and ne: "p \<noteq> q" and x: "0 \<le> x"
  shows "x ^ (1 + j * nat ((p - 1) * (q - 1))) mod (p * q) = x mod (p * q)"
proof -
  let ?E = "1 + j * nat ((p - 1) * (q - 1))"
  have p1: "0 \<le> p - 1" and q1: "0 \<le> q - 1"
    using es_primo_ge2 [OF p] es_primo_ge2 [OF q] by simp_all
  have nm: "nat ((p - 1) * (q - 1)) = nat (p - 1) * nat (q - 1)"
    using p1 by (rule nat_mult_distrib)
  have "?E = 1 + (j * nat (q - 1)) * nat (p - 1)" by (simp add: nm mult.commute mult.left_commute)
  then have "x ^ ?E mod p = x mod p" by (simp only: fermat_multiplo [OF p x])
  then have dp: "p dvd x ^ ?E - x" by (simp add: mod_eq_dvd_iff)
  have "?E = 1 + (j * nat (p - 1)) * nat (q - 1)" by (simp add: nm mult.commute mult.left_commute)
  then have "x ^ ?E mod q = x mod q" by (simp only: fermat_multiplo [OF q x])
  then have dq: "q dvd x ^ ?E - x" by (simp add: mod_eq_dvd_iff)
  have "\<not> p dvd q" using es_primo_dvd_primo [OF p q] ne by blast
  with p have "coprime p q" by (rule es_primo_coprime)
  with dp dq have "p * q dvd x ^ ?E - x" by (rule divides_mult)
  then show ?thesis by (simp add: mod_eq_dvd_iff)
qed

lemma rsa_es_clave:
  assumes k: "es_clave p q n e d" and x: "0 \<le> x" "x < n"
  shows "(x ^ nat e mod n) ^ nat d mod n = x"
proof -
  let ?phi = "(p - 1) * (q - 1)"
  from k have pq: "es_primo p" "es_primo q" "p \<noteq> q" and n: "n = p * q"
    and e: "0 \<le> e" and d: "0 \<le> d" and ed: "e * d mod ?phi = 1"
    by (simp_all add: es_clave_def Let_def)
  have phi: "0 < ?phi" using phi_ge2 [OF pq] by simp
  define j where "j = nat (e * d div ?phi)"
  have "0 \<le> e * d div ?phi" using e d phi by (simp add: pos_imp_zdiv_nonneg_iff)
  then have j: "int j = e * d div ?phi" by (simp add: j_def)
  have "e * d = ?phi * (e * d div ?phi) + e * d mod ?phi" by simp
  also have "\<dots> = ?phi * int j + 1" by (simp only: ed j)
  finally have "nat (e * d) = nat (?phi * int j + 1)" by (rule arg_cong)
  also have "\<dots> = nat ?phi * j + 1" using phi
    by (simp add: nat_add_distrib nat_mult_distrib)
  finally have "nat (e * d) = 1 + j * nat ?phi" by (simp add: mult.commute)
  then have E: "nat e * nat d = 1 + j * nat ?phi" using e by (simp add: nat_mult_distrib)
  have "(x ^ nat e mod n) ^ nat d mod n = (x ^ nat e) ^ nat d mod n" by (rule power_mod)
  also have "\<dots> = x ^ (nat e * nat d) mod n" by (simp add: power_mult)
  also have "\<dots> = x mod n" unfolding E n using pq x(1) by (rule rsa_mod_producto)
  also have "\<dots> = x" using x by simp
  finally show ?thesis .
qed

lemma padded_div:
  assumes "0 \<le> s" "s < 10 ^ j"
  shows "(m * 10 ^ j + s) div 10 ^ j = (m::int)"
  using assms by (simp add: div_pos_pos_trivial)

lemma padded_cifras:
  assumes m: "1 \<le> m" and s: "0 \<le> s" and k: "0 \<le> k"
  shows "k < num_cifras (m * 10 ^ nat k + s)"
proof -
  let ?P = "m * 10 ^ nat k + s"
  have "(1::int) * 10 ^ nat k \<le> m * 10 ^ nat k" using m by (intro mult_right_mono) simp_all
  with s have le: "10 ^ nat k \<le> ?P" by linarith
  have "(1::int) \<le> 10 ^ nat k" by simp
  with le have P: "1 \<le> ?P" by linarith
  from le num_cifras_bounds(2) [OF P] have "(10::int) ^ nat k < 10 ^ nat (num_cifras ?P)"
    by linarith
  then have "nat k < nat (num_cifras ?P)" by (simp add: power_strict_increasing_iff)
  with k show ?thesis by simp
qed

lemma descifrar_cifrar_clave:
  assumes key: "es_clave p q n e d" and nb: "n < 10 ^ 13" and m: "1 \<le> m" and k: "0 \<le> k"
    and c: "num_cifras m + k < num_cifras n"
  shows "\<exists>c. cifrar_rsa py m n e k rnd = Inr c \<and> descifrar_rsa py c n d k = Inr m"
proof -
  let ?s = "sufijo rnd (nat k)"
  let ?P = "m * 10 ^ nat k + ?s"
  from key have pq: "es_primo p" "es_primo q" "p \<noteq> q" and n: "n = p * q" and e: "0 \<le> e"
    by (simp_all add: es_clave_def Let_def)
  have "2 * 2 \<le> p * q" using es_primo_ge2 [OF pq(1)] es_primo_ge2 [OF pq(2)]
    by (intro mult_mono) simp_all
  then have n1: "1 \<le> n" and n0: "0 < n" by (simp_all add: n)
  have s: "0 \<le> ?s" "?s < 10 ^ nat k" using sufijo_bounds [of rnd "nat k"] by simp_all
  have Pn: "?P < n" using m n1 k c s(2) by (rule padded_bound)
  have "0 \<le> m * 10 ^ nat k" using m by simp
  with s have P0: "0 \<le> ?P" by simp
  have "(1::int) * 1 \<le> m * 10 ^ nat k" using m by (intro mult_mono) simp_all
  with s have P1: "1 \<le> ?P" by simp
  have "m * 1 \<le> m * 10 ^ nat k" using m by (intro mult_left_mono) simp_all
  with s(1) Pn nb have mb: "m < 10 ^ 13" and Pb: "?P < 10 ^ 13" by linarith+
  have enc: "cifrar_rsa py m n e k rnd = Inr (?P ^ nat e mod n)"
    using m mb n1 nb e k c by (simp add: cifrar_rsa_pos)
  have "potencia_mod_p (?P ^ nat e mod n) d n = Inr ((?P ^ nat e mod n) ^ nat d mod n)"
    using n0 by (rule potencia_mod_p_eq)
  also have "(?P ^ nat e mod n) ^ nat d mod n = ?P" using key P0 Pn by (rule rsa_es_clave)
  finally have pw: "potencia_mod_p (?P ^ nat e mod n) d n = Inr ?P" .
  have "eliminar_padding py ?P k = Inr (?P div 10 ^ nat k)"
    using padded_cifras [OF m s(1) k] k by (simp add: eliminar_padding_pos [OF P1 Pb])
  also have "?P div 10 ^ nat k = m" using s by (rule padded_div)
  finally have "descifrar_rsa py (?P ^ nat e mod n) n d k = Inr m"
    by (simp add: descifrar_rsa_def pw)
  with enc show ?thesis by blast
qed

end
